theory Spec2Isabelle
  imports Main
begin

section \<open>The chat platform as src/server/routes.ts sees it\<close>

text \<open>
  The handlers of \<^verbatim>\<open>registerRoutes\<close> talk to the platform through a discord.js
  \<^verbatim>\<open>Client\<close>. Every awaited call either throws or resolves; the answers the platform
  gives are collected in a record that the handlers take as a parameter.
\<close>

type_synonym snowflake = string

datatype 'a awaited = Throws | Resolves 'a

record user =
  user_id :: snowflake
  username :: string
  user_bot :: bool
  avatar_url :: string

record member =
  member_id :: snowflake
  member_user :: user
  displayName :: string

text \<open>
  A guild of \<^verbatim>\<open>client.guilds.cache\<close>: whether \<^verbatim>\<open>guild.members.fetch()\<close> resolves, and
  the content of \<^verbatim>\<open>guild.members.cache\<close> once it has.
\<close>

record guild =
  guild_id :: snowflake
  guild_name :: string
  members_fetch_ok :: bool
  members_cache :: "member list"

text \<open>
  What the platform answers: whether it accepts a token and the account the token belongs
  to (\<^verbatim>\<open>client.user\<close> once logged in), how a user id resolves, whether a direct channel
  can be opened and written to, and the guilds the client sees.
\<close>

record platform =
  login_ok :: "string \<Rightarrow> bool"
  token_user :: "string \<Rightarrow> user"
  users_fetch :: "snowflake \<Rightarrow> user option awaited"
  createDM_ok :: "snowflake \<Rightarrow> bool"
  send_ok :: "snowflake \<Rightarrow> string \<Rightarrow> bool"
  guilds_cache :: "guild list"
  guilds_fetch :: "snowflake \<Rightarrow> guild option awaited"

section \<open>POST /api/dm/bulk: the send loop (lines 383-411)\<close>

record results =
  success :: nat
  failed :: nat
  failedIds :: "snowflake list"

definition results_init :: results where
  "results_init = \<lparr>success = 0, failed = 0, failedIds = []\<rparr>"

text \<open>\<^verbatim>\<open>results.failed++; results.failedIds.push(userId)\<close>\<close>

definition record_failure :: "snowflake \<Rightarrow> results \<Rightarrow> results" where
  "record_failure userId r =
     r\<lparr>failed := failed r + 1, failedIds := failedIds r @ [userId]\<rparr>"

text \<open>\<^verbatim>\<open>delay && delay > 0\<close>, for an optional number.\<close>

definition delay_wanted :: "int option \<Rightarrow> bool" where
  "delay_wanted delay = (case delay of None \<Rightarrow> False | Some d \<Rightarrow> d \<noteq> 0 \<and> d > 0)"

text \<open>
  One iteration of \<^verbatim>\<open>for (const userId of targetUserIds)\<close>. The loop state is the
  \<^verbatim>\<open>results\<close> object together with the waits so far, in order: the id after which the
  loop awaited the \<^verbatim>\<open>setTimeout\<close> promise, and the time it was set to.
\<close>

definition send_body ::
  "platform \<Rightarrow> string \<Rightarrow> int option \<Rightarrow> snowflake list \<Rightarrow>
   results \<times> (snowflake \<times> int) list \<Rightarrow> snowflake \<Rightarrow>
   results \<times> (snowflake \<times> int) list" where
  "send_body P message delay targetUserIds st userId =
     (case users_fetch P userId of
        Throws \<Rightarrow> (record_failure userId (fst st), snd st)
      | Resolves None \<Rightarrow> (record_failure userId (fst st), snd st)
      | Resolves (Some u) \<Rightarrow>
          if user_bot u then st
          else if \<not> createDM_ok P userId then (record_failure userId (fst st), snd st)
          else if \<not> send_ok P userId message then (record_failure userId (fst st), snd st)
          else ((fst st)\<lparr>success := success (fst st) + 1\<rparr>,
                if delay_wanted delay \<and> userId \<noteq> last targetUserIds
                then snd st @ [(userId, the delay)] else snd st))"

definition send_loop ::
  "platform \<Rightarrow> string \<Rightarrow> int option \<Rightarrow> snowflake list \<Rightarrow>
   results \<times> (snowflake \<times> int) list" where
  "send_loop P message delay targetUserIds =
     foldl (send_body P message delay targetUserIds) (results_init, []) targetUserIds"

text \<open>The target resolves to a user whose \<^verbatim>\<open>bot\<close> flag is set.\<close>

definition resolves_to_bot :: "platform \<Rightarrow> snowflake \<Rightarrow> bool" where
  "resolves_to_bot P userId =
     (case users_fetch P userId of Resolves (Some u) \<Rightarrow> user_bot u | _ \<Rightarrow> False)"

text \<open>The message reaches the target: it resolves to a non-bot user and both calls succeed.\<close>

definition delivered :: "platform \<Rightarrow> string \<Rightarrow> snowflake \<Rightarrow> bool" where
  "delivered P message userId =
     (case users_fetch P userId of
        Resolves (Some u) \<Rightarrow> \<not> user_bot u \<and> createDM_ok P userId \<and> send_ok P userId message
      | _ \<Rightarrow> False)"

section \<open>POST /api/dm/bulk: target resolution (lines 354-381)\<close>

text \<open>
  \<^verbatim>\<open>guild.members.cache.forEach\<close>: a member is pushed when its user is not a bot and its id
  is not yet included.
\<close>

definition push_member :: "snowflake list \<Rightarrow> member \<Rightarrow> snowflake list" where
  "push_member targetUserIds m =
     (if \<not> user_bot (member_user m) \<and> member_id m \<notin> set targetUserIds
      then targetUserIds @ [member_id m] else targetUserIds)"

text \<open>
  The body of \<^verbatim>\<open>for (const guild of guildArray)\<close>: when \<^verbatim>\<open>guild.members.fetch()\<close> throws,
  the inner \<^verbatim>\<open>catch\<close> logs and the loop goes on.
\<close>

definition push_guild :: "snowflake list \<Rightarrow> guild \<Rightarrow> snowflake list" where
  "push_guild targetUserIds g =
     (if members_fetch_ok g then foldl push_member targetUserIds (members_cache g)
      else targetUserIds)"

definition resolve_targets :: "platform \<Rightarrow> snowflake list \<Rightarrow> bool \<Rightarrow> snowflake list" where
  "resolve_targets P userIds selectAll =
     (if selectAll then foldl push_guild userIds (guilds_cache P) else userIds)"

section \<open>POST /api/guild/members: the member preview (lines 164-221)\<close>

text \<open>The object each member is mapped to; it has no \<^verbatim>\<open>bot\<close> property.\<close>

record preview_member =
  pm_id :: snowflake
  pm_username :: string
  pm_displayName :: string
  pm_avatarUrl :: string
  pm_guildId :: snowflake
  pm_guildName :: string

definition to_preview :: "guild \<Rightarrow> member \<Rightarrow> preview_member" where
  "to_preview g m =
     \<lparr>pm_id = member_id m, pm_username = username (member_user m),
      pm_displayName = displayName m, pm_avatarUrl = avatar_url (member_user m),
      pm_guildId = guild_id g, pm_guildName = guild_name g\<rparr>"

text \<open>The body of the all-guilds loop (lines 195-212), with its own \<^verbatim>\<open>try/catch\<close>.\<close>

definition append_guild_members :: "preview_member list \<Rightarrow> guild \<Rightarrow> preview_member list" where
  "append_guild_members members g =
     (if members_fetch_ok g then members @ map (to_preview g) (members_cache g) else members)"

text \<open>\<^verbatim>\<open>Array.prototype.findIndex\<close>: the first index whose element passes, or -1.\<close>

fun findIndex :: "('a \<Rightarrow> bool) \<Rightarrow> 'a list \<Rightarrow> int" where
  "findIndex p [] = - 1"
| "findIndex p (x # xs) =
     (if p x then 0 else (let i = findIndex p xs in if i < 0 then - 1 else i + 1))"

text \<open>
  \<^verbatim>\<open>members.filter((member, index, self) => index === self.findIndex((m) => m.id === member.id))\<close>
\<close>

definition remove_duplicate_members :: "preview_member list \<Rightarrow> preview_member list" where
  "remove_duplicate_members self =
     map snd (filter (\<lambda>(index, member). int index = findIndex (\<lambda>m. pm_id m = pm_id member) self)
                (enumerate 0 self))"

text \<open>
  \<^verbatim>\<open>member.bot\<close> read from a mapped object: the property is not among the mapped ones, so
  the read yields \<^verbatim>\<open>undefined\<close>, which is falsy.
\<close>

definition preview_bot :: "preview_member \<Rightarrow> bool option" where
  "preview_bot m = None"

definition filter_out_bots :: "preview_member list \<Rightarrow> preview_member list" where
  "filter_out_bots members = filter (\<lambda>member. \<not> (preview_bot member = Some True)) members"

definition all_guilds_members :: "platform \<Rightarrow> preview_member list" where
  "all_guilds_members P =
     remove_duplicate_members (foldl append_guild_members [] (guilds_cache P))"

section \<open>Process-wide state\<close>

text \<open>
  A \<^verbatim>\<open>Client\<close> object: its connection state, the token \<^verbatim>\<open>login\<close> was last called with,
  the account it is logged in as (\<^verbatim>\<open>client.user\<close>), and the number of handlers registered
  with \<^verbatim>\<open>on(Events.MessageCreate, ...)\<close>.
\<close>

datatype conn = Unauthenticated | Authenticated | Destroyed

record session =
  conn :: conn
  credential :: "string option"
  client_user :: "user option"
  listeners :: nat

type_synonym client_ref = nat
type_synonym ws_ref = nat

datatype ready_state = CONNECTING | OPEN | CLOSING | CLOSED

text \<open>A row of the \<^verbatim>\<open>messageReplies\<close> table.\<close>

record reply =
  reply_userId :: string
  reply_username :: string
  reply_content :: string
  reply_messageId :: string
  reply_timestamp :: nat
  reply_avatarUrl :: "string option"
  reply_guildId :: "string option"
  reply_guildName :: "string option"

datatype ws_event = InitialReplies "reply list" | NewReply reply

text \<open>
  What the process does to the outside, in the order it does it: a row written to the
  store, and a call of \<^verbatim>\<open>send\<close> on a subscriber's socket.
\<close>

datatype effect = DbInsert reply | WsSend ws_ref ws_event

text \<open>
  The module-level variables \<^verbatim>\<open>discordClient\<close> and \<^verbatim>\<open>clients\<close> (a \<^verbatim>\<open>Set\<close>, kept in insertion
  order), \<^verbatim>\<open>process.env.DISCORD_BOT_TOKEN\<close>, every \<^verbatim>\<open>Client\<close> created so far (a client
  reference is its index), the logins that listener starts are awaiting (client and token),
  the sockets' \<^verbatim>\<open>readyState\<close>, the \<^verbatim>\<open>messageReplies\<close> table and the effects so far.
\<close>

record world =
  env_token :: "string option"
  sessions :: "session list"
  discordClient :: "client_ref option"
  pending_logins :: "(client_ref \<times> string) list"
  clients :: "ws_ref list"
  readyState :: "ws_ref \<Rightarrow> ready_state"
  store :: "reply list"
  trace :: "effect list"

definition initial_world :: "string option \<Rightarrow> world" where
  "initial_world env =
     \<lparr>env_token = env, sessions = [], discordClient = None, pending_logins = [], clients = [],
      readyState = (\<lambda>_. CONNECTING), store = [], trace = []\<rparr>"

subsection \<open>The discord.js client\<close>

definition new_Client :: "world \<Rightarrow> client_ref \<times> world" where
  "new_Client w =
     (length (sessions w),
      w\<lparr>sessions := sessions w @
         [\<lparr>conn = Unauthenticated, credential = None, client_user = None, listeners = 0\<rparr>]\<rparr>)"

definition update_session :: "client_ref \<Rightarrow> (session \<Rightarrow> session) \<Rightarrow> world \<Rightarrow> world" where
  "update_session c f w =
     (if c < length (sessions w) then w\<lparr>sessions := (sessions w)[c := f (sessions w ! c)]\<rparr> else w)"

text \<open>
  \<^verbatim>\<open>await client.login(token)\<close>: the platform accepts the token and the client is
  connected as the token's account, or the call throws; discord.js destroys a client whose
  login fails before it throws.
\<close>

definition login :: "platform \<Rightarrow> client_ref \<Rightarrow> string \<Rightarrow> world \<Rightarrow> bool \<times> world" where
  "login P c token w =
     (if login_ok P token
      then (True, update_session c
              (\<lambda>s. s\<lparr>conn := Authenticated, credential := Some token,
                      client_user := Some (token_user P token)\<rparr>) w)
      else (False, update_session c (\<lambda>s. s\<lparr>conn := Destroyed, credential := Some token\<rparr>) w))"

definition destroy :: "client_ref \<Rightarrow> world \<Rightarrow> world" where
  "destroy c w = update_session c (\<lambda>s. s\<lparr>conn := Destroyed\<rparr>) w"

definition on_MessageCreate :: "client_ref \<Rightarrow> world \<Rightarrow> world" where
  "on_MessageCreate c w = update_session c (\<lambda>s. s\<lparr>listeners := listeners s + 1\<rparr>) w"

subsection \<open>Tokens\<close>

text \<open>A token that is \<^verbatim>\<open>undefined\<close> or the empty string is falsy.\<close>

definition falsy :: "string option \<Rightarrow> bool" where
  "falsy t = (t = None \<or> t = Some [])"

text \<open>\<^verbatim>\<open>process.env.DISCORD_BOT_TOKEN || requestToken\<close>\<close>

definition or_token :: "string option \<Rightarrow> string option \<Rightarrow> string option" where
  "or_token env requestToken = (if falsy env then requestToken else env)"

subsection \<open>The reply store and the subscribers\<close>

text \<open>
  \<^verbatim>\<open>db.insert(messageReplies).values(v).returning()\<close>: throws, or appends the row and
  resolves to it.
\<close>

definition db_insert :: "bool \<Rightarrow> reply \<Rightarrow> world \<Rightarrow> reply awaited \<times> world" where
  "db_insert ok v w =
     (if ok then (Resolves v, w\<lparr>store := store w @ [v], trace := trace w @ [DbInsert v]\<rparr>)
      else (Throws, w))"

text \<open>
  Modelled from the spec: \<^verbatim>\<open>storage.saveMessageReply\<close> (./storage is not among the sources)
  is the Reply Store's insert, "durable append-only persistence" that hands back the stored
  record; it is the same insert as \<^verbatim>\<open>db.insert(messageReplies)\<close>.
\<close>

definition saveMessageReply :: "bool \<Rightarrow> reply \<Rightarrow> world \<Rightarrow> reply awaited \<times> world" where
  "saveMessageReply ok v w = db_insert ok v w"


definition ws_send :: "ws_ref \<Rightarrow> ws_event \<Rightarrow> world \<Rightarrow> world" where
  "ws_send ws ev w = w\<lparr>trace := trace w @ [WsSend ws ev]\<rparr>"

text \<open>
  \<^verbatim>\<open>clients.forEach(client => { if (client.readyState === WebSocket.OPEN) client.send(m) })\<close>
\<close>

definition broadcast :: "ws_event \<Rightarrow> world \<Rightarrow> world" where
  "broadcast ev w =
     foldl (\<lambda>w' client. if readyState w' client = OPEN then ws_send client ev w' else w')
       w (clients w)"

text \<open>\<^verbatim>\<open>Set.prototype.add\<close> and \<^verbatim>\<open>Set.prototype.delete\<close> on an insertion-ordered set.\<close>

definition set_add :: "'a \<Rightarrow> 'a list \<Rightarrow> 'a list" where
  "set_add x xs = (if x \<in> set xs then xs else xs @ [x])"

definition set_delete :: "'a \<Rightarrow> 'a list \<Rightarrow> 'a list" where
  "set_delete x xs = removeAll x xs"

section \<open>The handlers\<close>

text \<open>An HTTP response: the status code and, on success, the part of the body kept here.\<close>

datatype 'a response = Response nat "'a option"

fun status :: "'a response \<Rightarrow> nat" where
  "status (Response code _) = code"

fun payload :: "'a response \<Rightarrow> 'a option" where
  "payload (Response _ b) = b"

subsection \<open>POST /api/dm/single (lines 68-134)\<close>

text \<open>The validated body; \<open>None\<close> stands for a body that \<^verbatim>\<open>dmMessageSchema\<close> rejects.\<close>

record single_request =
  single_token :: "string option"
  single_userId :: snowflake
  single_message :: string

definition dm_single ::
  "platform \<Rightarrow> single_request option \<Rightarrow> world \<Rightarrow> world \<times> unit response" where
  "dm_single P validation w =
     (case validation of
        None \<Rightarrow> (w, Response 400 None)
      | Some req \<Rightarrow>
          let token = or_token (env_token w) (single_token req) in
          if falsy token then (w, Response 400 None)
          else
            let (client, w1) = new_Client w in
            case login P client (the token) w1 of
              (False, w2) \<Rightarrow> (destroy client w2, Response 400 None)
            | (True, w2) \<Rightarrow>
                (case users_fetch P (single_userId req) of
                   Throws \<Rightarrow> (destroy client w2, Response 400 None)
                 | Resolves None \<Rightarrow> (destroy client w2, Response 400 None)
                 | Resolves (Some u) \<Rightarrow>
                     if \<not> createDM_ok P (single_userId req)
                     then (destroy client w2, Response 400 None)
                     else if \<not> send_ok P (single_userId req) (single_message req)
                     then (destroy client w2, Response 400 None)
                     else (destroy client w2, Response 200 (Some ()))))"

subsection \<open>POST /api/guild/members (lines 137-246)\<close>

text \<open>\<^verbatim>\<open>const { token: requestToken, guildId } = req.body\<close>\<close>

record members_request =
  members_token :: "string option"
  guildId :: "snowflake option"

definition guild_members ::
  "platform \<Rightarrow> members_request \<Rightarrow> world \<Rightarrow> world \<times> preview_member list response" where
  "guild_members P req w =
     (let token = or_token (env_token w) (members_token req) in
      if falsy token then (w, Response 400 None)
      else
        let (client, w1) = new_Client w in
        case login P client (the token) w1 of
          (False, w2) \<Rightarrow> (destroy client w2, Response 400 None)
        | (True, w2) \<Rightarrow>
            if \<not> falsy (guildId req) then
              (case guilds_fetch P (the (guildId req)) of
                 Throws \<Rightarrow> (destroy client w2, Response 400 None)
               | Resolves None \<Rightarrow> (destroy client w2, Response 404 None)
               | Resolves (Some g) \<Rightarrow>
                   if \<not> members_fetch_ok g then (destroy client w2, Response 400 None)
                   else (destroy client w2,
                         Response 200
                           (Some (filter_out_bots (map (to_preview g) (members_cache g))))))
            else (destroy client w2, Response 200 (Some (filter_out_bots (all_guilds_members P)))))"

subsection \<open>POST /api/guilds (lines 249-307)\<close>

definition guilds ::
  "platform \<Rightarrow> string option \<Rightarrow> world \<Rightarrow> world \<times> (snowflake \<times> string) list response" where
  "guilds P requestToken w =
     (let token = or_token (env_token w) requestToken in
      if falsy token then (w, Response 400 None)
      else
        let (client, w1) = new_Client w in
        case login P client (the token) w1 of
          (False, w2) \<Rightarrow> (destroy client w2, Response 400 None)
        | (True, w2) \<Rightarrow>
            (destroy client w2,
             Response 200 (Some (map (\<lambda>g. (guild_id g, guild_name g)) (guilds_cache P)))))"

subsection \<open>Reply ingestion (lines 422-455, 517-549, 572-613, 656-689)\<close>

record message =
  message_id :: string
  message_content :: string
  author :: user
  channel_isDMBased :: bool

text \<open>The object handed to \<^verbatim>\<open>storage.saveMessageReply\<close>; \<open>now\<close> is \<^verbatim>\<open>new Date()\<close>.\<close>

definition reply_of_message :: "nat \<Rightarrow> message \<Rightarrow> reply" where
  "reply_of_message now msg =
     \<lparr>reply_userId = user_id (author msg), reply_username = username (author msg),
      reply_content = message_content msg, reply_messageId = message_id msg,
      reply_timestamp = now, reply_avatarUrl = Some (avatar_url (author msg)),
      reply_guildId = None, reply_guildName = None\<rparr>"

text \<open>
  The handler both \<^verbatim>\<open>discordClient.on(Events.MessageCreate, ...)\<close> calls register (the two
  bodies are the same text). \<open>ok\<close> says whether the store accepts the row.
\<close>

definition message_handler :: "bool \<Rightarrow> nat \<Rightarrow> message \<Rightarrow> world \<Rightarrow> world" where
  "message_handler ok now msg w =
     (if channel_isDMBased msg \<and> \<not> user_bot (author msg) then
        (case saveMessageReply ok (reply_of_message now msg) w of
           (Throws, w1) \<Rightarrow> w1
         | (Resolves r, w1) \<Rightarrow> broadcast (NewReply r) w1)
      else w)"

text \<open>
  The gateway delivers a message to a client: a client that is logged in and not destroyed
  runs each handler registered on it.
\<close>

definition emit_MessageCreate :: "client_ref \<Rightarrow> bool \<Rightarrow> nat \<Rightarrow> message \<Rightarrow> world \<Rightarrow> world" where
  "emit_MessageCreate c ok now msg w =
     (if c < length (sessions w) \<and> conn (sessions w ! c) = Authenticated
      then (message_handler ok now msg ^^ listeners (sessions w ! c)) w
      else w)"

text \<open>The fields read from \<^verbatim>\<open>req.body\<close> and from a \<^verbatim>\<open>{type: 'reply'}\<close> socket message.\<close>

record reply_body =
  body_userId :: string
  body_username :: string
  body_content :: string
  body_messageId :: string
  body_avatarUrl :: "string option"
  body_guildId :: "string option"
  body_guildName :: "string option"

definition reply_of_body :: "nat \<Rightarrow> reply_body \<Rightarrow> reply" where
  "reply_of_body now b =
     \<lparr>reply_userId = body_userId b, reply_username = body_username b,
      reply_content = body_content b, reply_messageId = body_messageId b,
      reply_timestamp = now, reply_avatarUrl = body_avatarUrl b,
      reply_guildId = body_guildId b, reply_guildName = body_guildName b\<rparr>"

text \<open>POST /api/replies\<close>

definition post_replies :: "bool \<Rightarrow> nat \<Rightarrow> reply_body \<Rightarrow> world \<Rightarrow> world \<times> reply response" where
  "post_replies ok now b w =
     (case db_insert ok (reply_of_body now b) w of
        (Throws, w1) \<Rightarrow> (w1, Response 500 None)
      | (Resolves r, w1) \<Rightarrow> (broadcast (NewReply r) w1, Response 200 (Some r)))"

text \<open>
  \<^verbatim>\<open>ws.on('message', ...)\<close>: the text does not parse (\<^verbatim>\<open>JSON.parse\<close> throws), or it
  parses to an object with a \<^verbatim>\<open>type\<close> and the reply fields.
\<close>

datatype ws_data = Unparsable | Parsed string reply_body

definition ws_on_message :: "bool \<Rightarrow> nat \<Rightarrow> ws_data \<Rightarrow> world \<Rightarrow> world" where
  "ws_on_message ok now d w =
     (case d of
        Unparsable \<Rightarrow> w
      | Parsed type b \<Rightarrow>
          if type = ''reply'' then
            (case db_insert ok (reply_of_body now b) w of
               (Throws, w1) \<Rightarrow> w1
             | (Resolves r, w1) \<Rightarrow> broadcast (NewReply r) w1)
          else w)"

subsection \<open>The subscriber connection (lines 555-624)\<close>

text \<open>
  The synchronous part of \<^verbatim>\<open>wss.on('connection', ...)\<close>: the socket joins \<^verbatim>\<open>clients\<close> and
  the select is issued (line 560).
\<close>

definition ws_on_connection :: "ws_ref \<Rightarrow> world \<Rightarrow> world" where
  "ws_on_connection ws w = w\<lparr>clients := set_add ws (clients w)\<rparr>"

text \<open>
  The select settles, with the answer the store gave when it served the query (\<open>db_select\<close>
  at that moment): \<^verbatim>\<open>.then\<close> sends the rows to the socket, \<^verbatim>\<open>.catch\<close> logs.
\<close>

definition ws_initial_data :: "reply list awaited \<Rightarrow> ws_ref \<Rightarrow> world \<Rightarrow> world" where
  "ws_initial_data answer ws w =
     (case answer of
        Throws \<Rightarrow> w
      | Resolves replies \<Rightarrow> ws_send ws (InitialReplies replies) w)"

definition ws_on_close :: "ws_ref \<Rightarrow> world \<Rightarrow> world" where
  "ws_on_close ws w = w\<lparr>clients := set_delete ws (clients w)\<rparr>"

definition ws_on_error :: "ws_ref \<Rightarrow> world \<Rightarrow> world" where
  "ws_on_error ws w = w\<lparr>clients := set_delete ws (clients w)\<rparr>"

subsection \<open>POST /api/dm/bulk (lines 310-483)\<close>

record bulk_request =
  bulk_token :: "string option"
  userIds :: "snowflake list"
  bulk_message :: string
  selectAll :: bool
  delay :: "int option"

text \<open>
  Lines 413-455: the previous client, if any, is destroyed, the variable is set to the
  client of this request, and the message handler is registered on it.
\<close>

definition listener_handoff :: "client_ref \<Rightarrow> world \<Rightarrow> world" where
  "listener_handoff client w =
     (let w1 = (case discordClient w of Some old \<Rightarrow> destroy old w | None \<Rightarrow> w);
          w2 = w1\<lparr>discordClient := Some client\<rparr>
      in on_MessageCreate client w2)"

definition dm_bulk ::
  "platform \<Rightarrow> bulk_request option \<Rightarrow> world \<Rightarrow> world \<times> results response" where
  "dm_bulk P validation w =
     (case validation of
        None \<Rightarrow> (w, Response 400 None)
      | Some req \<Rightarrow>
          let token = or_token (env_token w) (bulk_token req) in
          if falsy token then (w, Response 400 None)
          else
            let (client, w1) = new_Client w in
            case login P client (the token) w1 of
              (False, w2) \<Rightarrow> (destroy client w2, Response 400 None)
            | (True, w2) \<Rightarrow>
                let targetUserIds = resolve_targets P (userIds req) (selectAll req);
                    res = fst (send_loop P (bulk_message req) (delay req) targetUserIds)
                in (listener_handoff client w2, Response 200 (Some res)))"

subsection \<open>POST /api/startReplyListener (lines 627-705)\<close>

text \<open>
  Lines 638-692, up to the \<^verbatim>\<open>await\<close>: the previous client, if any, is destroyed and the
  variable cleared; a new client is created, stored in the variable and given the message
  handler; its login is started.
\<close>

definition listener_attach :: "string \<Rightarrow> world \<Rightarrow> client_ref \<times> world" where
  "listener_attach token w =
     (let w1 = (case discordClient w of
                  Some old \<Rightarrow> (destroy old w)\<lparr>discordClient := None\<rparr>
                | None \<Rightarrow> w);
          (client, w2) = new_Client w1;
          w3 = on_MessageCreate client (w2\<lparr>discordClient := Some client\<rparr>)
      in (client, w3\<lparr>pending_logins := pending_logins w3 @ [(client, token)]\<rparr>))"

text \<open>
  The awaited login settles: the handler answers 200, or the \<^verbatim>\<open>catch\<close> answers 500. The
  variable is not touched again.
\<close>

definition listener_settled ::
  "platform \<Rightarrow> client_ref \<Rightarrow> string \<Rightarrow> world \<Rightarrow> world \<times> unit response" where
  "listener_settled P client token w =
     (case login P client token
             (w\<lparr>pending_logins := filter (\<lambda>p. fst p \<noteq> client) (pending_logins w)\<rparr>) of
        (True, w4) \<Rightarrow> (w4, Response 200 (Some ()))
      | (False, w4) \<Rightarrow> (w4, Response 500 None))"

text \<open>The handler from request to response, when nothing else runs while it awaits.\<close>

definition startReplyListener ::
  "platform \<Rightarrow> string option \<Rightarrow> world \<Rightarrow> world \<times> unit response" where
  "startReplyListener P token w =
     (if falsy token then (w, Response 400 None)
      else
        let (client, w3) = listener_attach (the token) w
        in listener_settled P client (the token) w3)"

section \<open>The process as a transition system\<close>

text \<open>
  The process runs one piece of handler code at a time and switches at an \<^verbatim>\<open>await\<close>. An
  action is a stretch of handler code that runs without another handler in between, an
  event callback, or a change of a socket's state by its peer. The handlers that work on a
  client of their own (single message, preview, guild list, bulk) touch nothing shared until
  they are done, and the bulk handler sets the variable in one synchronous stretch at its end
  (lines 413-455); each is one action. The listener start sets the variable before it awaits
  the login, so it is two actions: the request up to the \<^verbatim>\<open>await\<close>, and the settling of
  the login of a client, which other actions may precede. The connection callback is two
  actions as well: its synchronous part, and the settling of the select it issued.
\<close>

datatype action =
    PostDmSingle platform "single_request option"
  | PostGuildMembers platform members_request
  | PostGuilds platform "string option"
  | PostDmBulk platform "bulk_request option"
  | PostStartReplyListener "string option"
  | ListenerLogin platform client_ref
  | PostReplies bool nat reply_body
  | MessageCreate client_ref bool nat message
  | WsConnection ws_ref
  | WsInitialData "reply list awaited" ws_ref
  | WsMessage bool nat ws_data
  | WsClose ws_ref
  | WsError ws_ref
  | SocketState ws_ref ready_state

fun step :: "world \<Rightarrow> action \<Rightarrow> world" where
  "step w (PostDmSingle P v) = fst (dm_single P v w)"
| "step w (PostGuildMembers P req) = fst (guild_members P req w)"
| "step w (PostGuilds P t) = fst (guilds P t w)"
| "step w (PostDmBulk P v) = fst (dm_bulk P v w)"
| "step w (PostStartReplyListener t) =
     (if falsy t then w else snd (listener_attach (the t) w))"
| "step w (ListenerLogin P c) =
     (case map_of (pending_logins w) c of
        None \<Rightarrow> w
      | Some t \<Rightarrow> fst (listener_settled P c t w))"
| "step w (PostReplies ok now b) = fst (post_replies ok now b w)"
| "step w (MessageCreate c ok now msg) = emit_MessageCreate c ok now msg w"
| "step w (WsConnection ws) = ws_on_connection ws w"
| "step w (WsInitialData answer ws) = ws_initial_data answer ws w"
| "step w (WsMessage ok now d) = ws_on_message ok now d w"
| "step w (WsClose ws) = ws_on_close ws w"
| "step w (WsError ws) = ws_on_error ws w"
| "step w (SocketState ws st) = w\<lparr>readyState := (readyState w)(ws := st)\<rparr>"

definition run :: "world \<Rightarrow> action list \<Rightarrow> world" where
  "run w as = foldl step w as"

section \<open>Properties read off a run\<close>

text \<open>The events sent to one socket, in order.\<close>

fun received :: "ws_ref \<Rightarrow> effect list \<Rightarrow> ws_event list" where
  "received ws [] = []"
| "received ws (DbInsert r # es) = received ws es"
| "received ws (WsSend c ev # es) = (if c = ws then ev # received ws es else received ws es)"

text \<open>
  Every \<^verbatim>\<open>newReply\<close> sent carries a row that was inserted earlier in the list (or is among
  \<open>stored\<close>, the rows inserted before the list starts).
\<close>

fun sends_follow_insert :: "reply list \<Rightarrow> effect list \<Rightarrow> bool" where
  "sends_follow_insert stored [] = True"
| "sends_follow_insert stored (DbInsert r # es) = sends_follow_insert (r # stored) es"
| "sends_follow_insert stored (WsSend ws (NewReply r) # es) =
     (r \<in> set stored \<and> sends_follow_insert stored es)"
| "sends_follow_insert stored (WsSend ws (InitialReplies rs) # es) =
     sends_follow_insert stored es"

text \<open>The effects an action adds to those of \<open>w\<close>.\<close>

definition effects_of :: "world \<Rightarrow> action \<Rightarrow> effect list" where
  "effects_of w a = drop (length (trace w)) (trace (step w a))"

text \<open>
  The actions through which a reply comes in (the message handler of a client, POST
  /api/replies, a \<^verbatim>\<open>reply\<close> message on a socket), and whether the store accepts the row.
\<close>

fun inbound :: "action \<Rightarrow> bool" where
  "inbound (MessageCreate c ok now msg) = True"
| "inbound (PostReplies ok now b) = True"
| "inbound (WsMessage ok now d) = True"
| "inbound _ = False"

fun insert_succeeds :: "action \<Rightarrow> bool" where
  "insert_succeeds (MessageCreate c ok now msg) = ok"
| "insert_succeeds (PostReplies ok now b) = ok"
| "insert_succeeds (WsMessage ok now d) = ok"
| "insert_succeeds _ = False"


text \<open>
  A client that receives replies: a message handler is registered on it and it is logged
  in. (\<open>emit_MessageCreate\<close> runs the handlers of such a client only.)
\<close>

definition listening :: "session \<Rightarrow> bool" where
  "listening s = (0 < listeners s \<and> conn s = Authenticated)"

definition listening_clients :: "world \<Rightarrow> client_ref list" where
  "listening_clients w = filter (\<lambda>c. listening (sessions w ! c)) [0..<length (sessions w)]"

text \<open>
  A client with a message handler that is not destroyed: it receives replies now or will
  once its login succeeds.
\<close>

definition live_listener :: "session \<Rightarrow> bool" where
  "live_listener s = (0 < listeners s \<and> conn s \<noteq> Destroyed)"

text \<open>
  The single-listener invariant: the variable \<^verbatim>\<open>discordClient\<close> refers to a client that
  exists, no client has more than one message handler, and a client with a handler that is
  not destroyed is the client the variable refers to.
\<close>

definition single_listener :: "world \<Rightarrow> bool" where
  "single_listener w =
     ((case discordClient w of None \<Rightarrow> True | Some c \<Rightarrow> c < length (sessions w)) \<and>
      list_all (\<lambda>c. listeners (sessions w ! c) \<le> 1 \<and>
                     (live_listener (sessions w ! c) \<longrightarrow> discordClient w = Some c))
        [0..<length (sessions w)])"

text \<open>No client has more than one message handler.\<close>

definition one_handler_each :: "world \<Rightarrow> bool" where
  "one_handler_each w = list_all (\<lambda>s. listeners s \<le> 1) (sessions w)"

text \<open>Every login a listener start is awaiting is the login of the client in the variable.\<close>

definition pending_on_slot :: "world \<Rightarrow> bool" where
  "pending_on_slot w = list_all (\<lambda>p. discordClient w = Some (fst p)) (pending_logins w)"

text \<open>
  An action that puts a new client in the variable: a listener start with a token, and a
  bulk request that reaches its end.
\<close>

fun promotes :: "world \<Rightarrow> action \<Rightarrow> bool" where
  "promotes w (PostStartReplyListener t) = (\<not> falsy t)"
| "promotes w (PostDmBulk P v) = (status (snd (dm_bulk P v w)) = 200)"
| "promotes w _ = False"

text \<open>
  A run in which no client is put in the variable while the login of a listener start is
  still pending.
\<close>

fun serial :: "world \<Rightarrow> action list \<Rightarrow> bool" where
  "serial w [] = True"
| "serial w (a # as) = ((promotes w a \<longrightarrow> pending_logins w = []) \<and> serial (step w a) as)"

text \<open>The token the client created by a request was logged in with, if it created one.\<close>

definition credential_used :: "world \<Rightarrow> world \<Rightarrow> string option" where
  "credential_used w w' =
     (if length (sessions w) < length (sessions w')
      then credential (sessions w' ! length (sessions w)) else None)"

section \<open>Concrete scenarios\<close>

definition alice :: user where
  "alice = \<lparr>user_id = ''A'', username = ''alice'', user_bot = False, avatar_url = ''a.png''\<rparr>"

definition carol :: user where
  "carol = \<lparr>user_id = ''C'', username = ''carol'', user_bot = False, avatar_url = ''c.png''\<rparr>"

text \<open>The account of the bot itself.\<close>

definition bot_account :: user where
  "bot_account = \<lparr>user_id = ''BOT'', username = ''bot'', user_bot = True, avatar_url = ''b.png''\<rparr>"

definition robot :: user where
  "robot = \<lparr>user_id = ''R'', username = ''robot'', user_bot = True, avatar_url = ''r.png''\<rparr>"

definition as_member :: "user \<Rightarrow> member" where
  "as_member u = \<lparr>member_id = user_id u, member_user = u, displayName = username u\<rparr>"

definition guild_one :: guild where
  "guild_one = \<lparr>guild_id = ''G1'', guild_name = ''one'', members_fetch_ok = True,
                 members_cache = [as_member alice, as_member robot]\<rparr>"

definition guild_down :: guild where
  "guild_down = \<lparr>guild_id = ''G2'', guild_name = ''two'', members_fetch_ok = False,
                  members_cache = []\<rparr>"

definition guild_three :: guild where
  "guild_three = \<lparr>guild_id = ''G3'', guild_name = ''three'', members_fetch_ok = True,
                   members_cache = [as_member alice, as_member carol]\<rparr>"

text \<open>
  A platform that accepts the token \<open>good\<close> of the bot account, knows the users A and C
  and another bot R, throws
  on resolving B and sees three guilds, the second of which cannot list its members.
\<close>

definition demo_platform :: platform where
  "demo_platform =
     \<lparr>login_ok = (\<lambda>t. t = ''good''),
      token_user = (\<lambda>_. bot_account),
      users_fetch = (\<lambda>i. if i = ''A'' then Resolves (Some alice)
                          else if i = ''B'' then Throws
                          else if i = ''C'' then Resolves (Some carol)
                          else if i = ''R'' then Resolves (Some robot)
                          else Resolves None),
      createDM_ok = (\<lambda>_. True),
      send_ok = (\<lambda>_ _. True),
      guilds_cache = [guild_one, guild_down, guild_three],
      guilds_fetch = (\<lambda>_. Resolves None)\<rparr>"

definition demo_bulk :: "snowflake list \<Rightarrow> bool \<Rightarrow> bulk_request" where
  "demo_bulk ids all =
     \<lparr>bulk_token = None, userIds = ids, bulk_message = ''hi'', selectAll = all,
      delay = Some 100\<rparr>"

definition demo_body :: reply_body where
  "demo_body = \<lparr>body_userId = ''A'', body_username = ''alice'', body_content = ''hello'',
                 body_messageId = ''m1'', body_avatarUrl = None, body_guildId = None,
                 body_guildName = None\<rparr>"

definition demo_message :: "user \<Rightarrow> bool \<Rightarrow> message" where
  "demo_message u dm =
     \<lparr>message_id = ''m2'', message_content = ''pong'', author = u, channel_isDMBased = dm\<rparr>"

definition demo_single :: single_request where
  "demo_single = \<lparr>single_token = None, single_userId = ''A'', single_message = ''hi''\<rparr>"

definition demo_members :: members_request where
  "demo_members = \<lparr>members_token = Some ''good'', guildId = None\<rparr>"

text \<open>A process in which the listener start has put a logged-in client in the variable.\<close>

definition demo_listening :: world where
  "demo_listening = fst (startReplyListener demo_platform (Some ''good'') (initial_world None))"

section \<open>The send loop: tally\<close>

lemma send_body_counts:
  "success (fst (send_body P m d ts st u)) + failed (fst (send_body P m d ts st u)) =
     success (fst st) + failed (fst st) + (if resolves_to_bot P u then 0 else 1)"
  by (simp add: send_body_def resolves_to_bot_def record_failure_def
      split: awaited.splits option.splits)

lemma send_body_failedIds:
  "length (failedIds (fst (send_body P m d ts st u))) + failed (fst st) =
     length (failedIds (fst st)) + failed (fst (send_body P m d ts st u))"
  by (simp add: send_body_def record_failure_def split: awaited.splits option.splits)

lemma foldl_send_body_counts:
  "success (fst (foldl (send_body P m d ts) st us)) + failed (fst (foldl (send_body P m d ts) st us)) =
     success (fst st) + failed (fst st) + length (filter (\<lambda>u. \<not> resolves_to_bot P u) us)"
proof (induction us arbitrary: st)
  case Nil
  show ?case by simp
next
  case (Cons u us)
  show ?case
    by (simp add: Cons.IH send_body_counts)
qed

lemma foldl_send_body_failedIds:
  "length (failedIds (fst (foldl (send_body P m d ts) st us))) + failed (fst st) =
     length (failedIds (fst st)) + failed (fst (foldl (send_body P m d ts) st us))"
proof (induction us arbitrary: st)
  case Nil
  show ?case by simp
next
  case (Cons u us)
  have "length (failedIds (fst (foldl (send_body P m d ts) (send_body P m d ts st u) us)))
          + failed (fst (send_body P m d ts st u)) =
        length (failedIds (fst (send_body P m d ts st u)))
          + failed (fst (foldl (send_body P m d ts) (send_body P m d ts st u) us))"
    by (rule Cons.IH)
  with send_body_failedIds [of P m d ts st u] show ?case
    by simp
qed

lemmas demo_defs =
  demo_platform_def alice_def carol_def robot_def bot_account_def as_member_def guild_one_def
  guild_down_def guild_three_def demo_bulk_def demo_body_def demo_message_def

text \<open>
  C1. The tally of a bulk dispatch: \<open>success + failed\<close> is the number of targets that
  did not resolve to a bot (every target of the sequence is attempted; a bot is skipped and
  counts in neither), and \<open>failedIds\<close> has \<open>failed\<close> entries. In particular, for the targets
  A and B where A is reached and resolving B throws, the tally is one success, one failure
  and \<open>failedIds = [B]\<close>.
\<close>

theorem bulk_tally:
  "success (fst (send_loop P message delayMs targetUserIds))
     + failed (fst (send_loop P message delayMs targetUserIds))
     = length (filter (\<lambda>u. \<not> resolves_to_bot P u) targetUserIds)
   \<and> length (failedIds (fst (send_loop P message delayMs targetUserIds)))
     = failed (fst (send_loop P message delayMs targetUserIds))
   \<and> (delivered P message ''A'' \<and> users_fetch P ''B'' = Throws \<longrightarrow>
        fst (send_loop P message delayMs [''A'', ''B''])
          = \<lparr>success = 1, failed = 1, failedIds = [''B'']\<rparr>)"
proof (intro conjI impI)
  show "success (fst (send_loop P message delayMs targetUserIds))
     + failed (fst (send_loop P message delayMs targetUserIds))
     = length (filter (\<lambda>u. \<not> resolves_to_bot P u) targetUserIds)"
    using foldl_send_body_counts [of P message delayMs targetUserIds "(results_init, [])" targetUserIds]
    by (simp add: send_loop_def results_init_def)
next
  show "length (failedIds (fst (send_loop P message delayMs targetUserIds)))
     = failed (fst (send_loop P message delayMs targetUserIds))"
    using foldl_send_body_failedIds [of P message delayMs targetUserIds "(results_init, [])" targetUserIds]
    by (simp add: send_loop_def results_init_def)
next
  assume h: "delivered P message ''A'' \<and> users_fetch P ''B'' = Throws"
  then show "fst (send_loop P message delayMs [''A'', ''B''])
          = \<lparr>success = 1, failed = 1, failedIds = [''B'']\<rparr>"
    by (auto simp: send_loop_def send_body_def results_init_def record_failure_def delivered_def
        split: awaited.splits option.splits)
qed

theorem bulk_tally_witness:
  "delivered demo_platform ''hi'' ''A'' \<and> users_fetch demo_platform ''B'' = Throws
   \<and> fst (send_loop demo_platform ''hi'' (Some 100) [''A'', ''B''])
       = \<lparr>success = 1, failed = 1, failedIds = [''B'']\<rparr>
   \<and> success (fst (send_loop demo_platform ''hi'' (Some 100) [''A'', ''R'', ''B'', ''Z'']))
       + failed (fst (send_loop demo_platform ''hi'' (Some 100) [''A'', ''R'', ''B'', ''Z''])) = 3"
proof -
  have h: "delivered demo_platform ''hi'' ''A'' \<and> users_fetch demo_platform ''B'' = Throws"
    by (simp add: delivered_def demo_defs)
  have n: "length (filter (\<lambda>u. \<not> resolves_to_bot demo_platform u) [''A'', ''R'', ''B'', ''Z'']) = 3"
    by (simp add: resolves_to_bot_def demo_defs)
  from h n bulk_tally [of demo_platform "''hi''" "Some 100" "[''A'', ''R'', ''B'', ''Z'']"]
  show ?thesis
    by simp
qed

section \<open>The send loop: delay\<close>

lemma send_body_waits:
  "snd (send_body P m d ts st u) =
     snd st @ (if delivered P m u \<and> delay_wanted d \<and> u \<noteq> last ts then [(u, the d)] else [])"
  by (simp add: send_body_def delivered_def split: awaited.splits option.splits)

lemma foldl_send_body_waits:
  "snd (foldl (send_body P m d ts) st us) =
     snd st @ map (\<lambda>u. (u, the d))
                (filter (\<lambda>u. delivered P m u \<and> delay_wanted d \<and> u \<noteq> last ts) us)"
proof (induction us arbitrary: st)
  case Nil
  show ?case by simp
next
  case (Cons u us)
  show ?case
    by (simp add: Cons.IH send_body_waits)
qed

lemma send_loop_waits:
  "snd (send_loop P m d ts) =
     map (\<lambda>u. (u, the d)) (filter (\<lambda>u. delivered P m u \<and> delay_wanted d \<and> u \<noteq> last ts) ts)"
  by (simp add: send_loop_def foldl_send_body_waits)

lemma filter_not_last:
  "distinct ts \<Longrightarrow> filter (\<lambda>u. Q u \<and> u \<noteq> last ts) ts = filter Q (butlast ts)"
proof (cases ts rule: rev_cases)
  case Nil
  then show ?thesis by simp
next
  case (snoc ys y)
  assume "distinct ts"
  with snoc have "y \<notin> set ys" by simp
  then have "filter (\<lambda>u. Q u \<and> u \<noteq> y) ys = filter Q ys"
    by (intro filter_cong) auto
  with snoc show ?thesis by simp
qed

text \<open>
  C6, as amended. The loop awaits the delay only after a target it has sent to, and only
  when the delay is set and positive and the target's id is not the id of the last target.
  So for distinct targets it waits, for the time given, after exactly the delivered targets
  other than the last; without a positive delay there is no wait; there is never a wait
  after the final target; and with a delay of 100 and three distinct targets of which the
  first two are delivered, the loop waits twice, after the first and after the second.
\<close>

theorem bulk_delay:
  "(0 < d \<and> distinct targetUserIds \<longrightarrow>
      snd (send_loop P message (Some d) targetUserIds)
        = map (\<lambda>u. (u, d)) (filter (delivered P message) (butlast targetUserIds)))
   \<and> (\<not> delay_wanted delayMs \<longrightarrow> snd (send_loop P message delayMs targetUserIds) = [])
   \<and> (targetUserIds \<noteq> [] \<longrightarrow>
        last targetUserIds \<notin> fst ` set (snd (send_loop P message delayMs targetUserIds)))
   \<and> (distinct [a, b, c] \<and> delivered P message a \<and> delivered P message b \<longrightarrow>
        snd (send_loop P message (Some 100) [a, b, c]) = [(a, 100), (b, 100)])"
proof (intro conjI impI)
  assume "0 < d \<and> distinct targetUserIds"
  then show "snd (send_loop P message (Some d) targetUserIds)
        = map (\<lambda>u. (u, d)) (filter (delivered P message) (butlast targetUserIds))"
    using filter_not_last [of targetUserIds "delivered P message"]
    by (simp add: send_loop_waits delay_wanted_def)
next
  assume "\<not> delay_wanted delayMs"
  then show "snd (send_loop P message delayMs targetUserIds) = []"
    by (simp add: send_loop_waits)
next
  show "last targetUserIds \<notin> fst ` set (snd (send_loop P message delayMs targetUserIds))"
    by (auto simp: send_loop_waits)
next
  assume "distinct [a, b, c] \<and> delivered P message a \<and> delivered P message b"
  then show "snd (send_loop P message (Some 100) [a, b, c]) = [(a, 100), (b, 100)]"
    by (auto simp: send_loop_waits delay_wanted_def)
qed

theorem bulk_delay_witness:
  "(0::int) < 100 \<and> distinct [''A'', ''C'', ''B'']
   \<and> snd (send_loop demo_platform ''hi'' (Some 100) [''A'', ''C'', ''B''])
       = [(''A'', 100), (''C'', 100)]
   \<and> \<not> delay_wanted None \<and> snd (send_loop demo_platform ''hi'' None [''A'', ''C'', ''B'']) = []
   \<and> [''A'', ''C'', ''B''] \<noteq> []
   \<and> last [''A'', ''C'', ''B'']
       \<notin> fst ` set (snd (send_loop demo_platform ''hi'' (Some 100) [''A'', ''C'', ''B'']))
   \<and> delivered demo_platform ''hi'' ''A'' \<and> delivered demo_platform ''hi'' ''C''"
proof -
  have d: "delivered demo_platform ''hi'' ''A'' \<and> delivered demo_platform ''hi'' ''C''"
    by (simp add: delivered_def demo_defs)
  have w: "(0::int) < 100 \<and> \<not> delay_wanted None"
    by (simp add: delay_wanted_def)
  have l: "distinct [''A'', ''C'', ''B''] \<and> [''A'', ''C'', ''B''] \<noteq> []"
    by simp
  from d w l
    bulk_delay [of 100 "[''A'', ''C'', ''B'']" demo_platform "''hi''" "Some 100" "''A''" "''C''" "''B''"]
    bulk_delay [of 100 "[''A'', ''C'', ''B'']" demo_platform "''hi''" None "''A''" "''C''" "''B''"]
  show ?thesis
    by simp
qed

text \<open>
  The claim as stated fails when a target is not delivered: resolving B throws, so of the
  three targets B, A, C only A is followed by a wait.
\<close>

theorem bulk_delay_counterexample:
  "delay_wanted (Some 100)
   \<and> snd (send_loop demo_platform ''hi'' (Some 100) [''B'', ''A'', ''C'']) = [(''A'', 100)]
   \<and> map fst (snd (send_loop demo_platform ''hi'' (Some 100) [''B'', ''A'', ''C'']))
       \<noteq> butlast [''B'', ''A'', ''C'']"
  by (simp add: send_loop_def send_body_def results_init_def record_failure_def delay_wanted_def
      demo_defs)

section \<open>Target resolution\<close>

lemma foldl_push_member:
  "\<exists>new. foldl push_member ts ms = ts @ new \<and> distinct new \<and> set new \<inter> set ts = {}
     \<and> set new = {member_id m | m. m \<in> set ms \<and> \<not> user_bot (member_user m)} - set ts"
proof (induction ms rule: rev_induct)
  case Nil
  show ?case by simp
next
  case (snoc m ms)
  then obtain new where n: "foldl push_member ts ms = ts @ new" "distinct new"
    "set new \<inter> set ts = {}"
    "set new = {member_id m | m. m \<in> set ms \<and> \<not> user_bot (member_user m)} - set ts"
    by blast
  show ?case
  proof (cases "\<not> user_bot (member_user m) \<and> member_id m \<notin> set (ts @ new)")
    case True
    with n have "foldl push_member ts (ms @ [m]) = ts @ (new @ [member_id m])"
      by (simp add: push_member_def)
    moreover from True n have "distinct (new @ [member_id m])" by simp
    moreover from True n have "set (new @ [member_id m]) \<inter> set ts = {}" by auto
    moreover from True n have "set (new @ [member_id m]) =
        {member_id x | x. x \<in> set (ms @ [m]) \<and> \<not> user_bot (member_user x)} - set ts"
      by auto
    ultimately show ?thesis by blast
  next
    case False
    with n have "foldl push_member ts (ms @ [m]) = ts @ new"
      by (simp add: push_member_def)
    moreover from False n have "set new =
        {member_id x | x. x \<in> set (ms @ [m]) \<and> \<not> user_bot (member_user x)} - set ts"
      by auto
    ultimately show ?thesis using n by blast
  qed
qed

lemma foldl_push_guild:
  "\<exists>new. foldl push_guild ts gs = ts @ new \<and> distinct new \<and> set new \<inter> set ts = {}
     \<and> set new = {member_id m | m g. g \<in> set gs \<and> members_fetch_ok g \<and> m \<in> set (members_cache g)
                      \<and> \<not> user_bot (member_user m)} - set ts"
proof (induction gs rule: rev_induct)
  case Nil
  show ?case by simp
next
  case (snoc g gs)
  then obtain new where n: "foldl push_guild ts gs = ts @ new" "distinct new"
    "set new \<inter> set ts = {}"
    "set new = {member_id m | m g. g \<in> set gs \<and> members_fetch_ok g \<and> m \<in> set (members_cache g)
                      \<and> \<not> user_bot (member_user m)} - set ts"
    by blast
  show ?case
  proof (cases "members_fetch_ok g")
    case False
    with n have "foldl push_guild ts (gs @ [g]) = ts @ new"
      by (simp add: push_guild_def)
    moreover from False n have "set new =
        {member_id m | m g'. g' \<in> set (gs @ [g]) \<and> members_fetch_ok g' \<and> m \<in> set (members_cache g')
                      \<and> \<not> user_bot (member_user m)} - set ts"
      by auto
    ultimately show ?thesis using n by blast
  next
    case True
    obtain more where m: "foldl push_member (ts @ new) (members_cache g) = (ts @ new) @ more"
      "distinct more" "set more \<inter> set (ts @ new) = {}"
      "set more = {member_id m | m. m \<in> set (members_cache g) \<and> \<not> user_bot (member_user m)}
                    - set (ts @ new)"
      using foldl_push_member [of "ts @ new" "members_cache g"] by blast
    from True n m have "foldl push_guild ts (gs @ [g]) = ts @ (new @ more)"
      by (simp add: push_guild_def)
    moreover from n m have "distinct (new @ more)" by auto
    moreover from n m have "set (new @ more) \<inter> set ts = {}" by auto
    moreover from True n(4) m(4) have "set (new @ more) =
        {member_id m | m g'. g' \<in> set (gs @ [g]) \<and> members_fetch_ok g' \<and> m \<in> set (members_cache g')
                      \<and> \<not> user_bot (member_user m)} - set ts"
      by auto
    ultimately show ?thesis by blast
  qed
qed

text \<open>
  C5, as amended. The explicit ids are handed on as they were given; what select-all
  appends has no duplicates, repeats no explicit id, and holds only ids of members whose
  user is not flagged as a bot, found in a guild whose member list could be fetched. So the
  target sequence has no duplicate when the explicit ids have none.
\<close>

theorem resolved_targets:
  "take (length ids) (resolve_targets P ids all) = ids
   \<and> distinct (drop (length ids) (resolve_targets P ids all))
   \<and> set (drop (length ids) (resolve_targets P ids all)) \<inter> set ids = {}
   \<and> (\<forall>u \<in> set (drop (length ids) (resolve_targets P ids all)).
         all \<and> (\<exists>g \<in> set (guilds_cache P). members_fetch_ok g \<and>
                 (\<exists>m \<in> set (members_cache g). member_id m = u \<and> \<not> user_bot (member_user m))))
   \<and> (distinct ids \<longrightarrow> distinct (resolve_targets P ids all))"
proof (cases all)
  case False
  then show ?thesis by (simp add: resolve_targets_def)
next
  case True
  obtain new where n: "foldl push_guild ids (guilds_cache P) = ids @ new" "distinct new"
    "set new \<inter> set ids = {}"
    "set new = {member_id m | m g. g \<in> set (guilds_cache P) \<and> members_fetch_ok g
                  \<and> m \<in> set (members_cache g) \<and> \<not> user_bot (member_user m)} - set ids"
    using foldl_push_guild [of ids "guilds_cache P"] by blast
  from True n(1) have r: "resolve_targets P ids all = ids @ new"
    by (simp add: resolve_targets_def)
  have "\<forall>u \<in> set new. all \<and> (\<exists>g \<in> set (guilds_cache P). members_fetch_ok g \<and>
                 (\<exists>m \<in> set (members_cache g). member_id m = u \<and> \<not> user_bot (member_user m)))"
    using True n(4) by auto
  with n(2,3) show ?thesis
    unfolding r by auto
qed

lemma demo_resolve:
  "resolve_targets demo_platform [''B''] True = [''B'', ''A'', ''C'']"
  by (simp add: resolve_targets_def push_guild_def push_member_def demo_defs)

theorem resolved_targets_witness:
  "distinct [''B''] \<and> distinct (resolve_targets demo_platform [''B''] True)
   \<and> take (length [''B'']) (resolve_targets demo_platform [''B''] True) = [''B'']
   \<and> drop (length [''B'']) (resolve_targets demo_platform [''B''] True) = [''A'', ''C'']"
proof -
  have d: "distinct [''B'']" by simp
  from d resolved_targets [of "[''B'']" demo_platform True] demo_resolve
  show ?thesis by simp
qed

text \<open>
  The claim as stated fails on the explicit ids: a repeated id stays repeated, and the id of
  a bot stays in the sequence (the send loop skips it later).
\<close>

theorem resolved_targets_counterexample:
  "\<not> distinct (resolve_targets demo_platform [''A'', ''A''] True)
   \<and> ''R'' \<in> set (resolve_targets demo_platform [''R''] True)
   \<and> resolves_to_bot demo_platform ''R''"
  by (simp add: resolve_targets_def push_guild_def push_member_def resolves_to_bot_def demo_defs)

lemma foldl_push_guild_filter:
  "foldl push_guild ts gs = foldl push_guild ts (filter members_fetch_ok gs)"
  by (induction gs arbitrary: ts) (simp_all add: push_guild_def)

lemma foldl_append_guild_members_filter:
  "foldl append_guild_members ms gs = foldl append_guild_members ms (filter members_fetch_ok gs)"
  by (induction gs arbitrary: ms) (simp_all add: append_guild_members_def)

section \<open>Clients and the listener variable\<close>


lemma single_listener_iff:
  "single_listener w \<longleftrightarrow>
     (\<forall>c. discordClient w = Some c \<longrightarrow> c < length (sessions w)) \<and>
     (\<forall>c < length (sessions w). listeners (sessions w ! c) \<le> 1 \<and>
        (live_listener (sessions w ! c) \<longrightarrow> discordClient w = Some c))"
proof -
  have a: "(case discordClient w of None \<Rightarrow> True | Some c \<Rightarrow> c < length (sessions w)) \<longleftrightarrow>
      (\<forall>c. discordClient w = Some c \<longrightarrow> c < length (sessions w))"
    by (cases "discordClient w") simp_all
  show ?thesis
    unfolding single_listener_def a
    by (simp add: list_all_iff Ball_def)
qed

lemma fst_new_Client [simp]: "fst (new_Client w) = length (sessions w)"
  by (simp add: new_Client_def)

lemma snd_new_Client:
  "snd (new_Client w) =
     w\<lparr>sessions := sessions w @ [\<lparr>conn = Unauthenticated, credential = None, client_user = None, listeners = 0\<rparr>]\<rparr>"
  by (simp add: new_Client_def)

lemma fst_login [simp]: "fst (login P c t w) = login_ok P t"
  by (simp add: login_def)

lemma snd_login:
  "snd (login P c t w) =
     update_session c
       (\<lambda>s. if login_ok P t
            then s\<lparr>conn := Authenticated, credential := Some t,
                   client_user := Some (token_user P t)\<rparr>
            else s\<lparr>conn := Destroyed, credential := Some t\<rparr>) w"
  by (simp add: login_def)

lemma update_session_fields [simp]:
  "env_token (update_session c f w) = env_token w"
  "pending_logins (update_session c f w) = pending_logins w"
  "discordClient (update_session c f w) = discordClient w"
  "clients (update_session c f w) = clients w"
  "readyState (update_session c f w) = readyState w"
  "store (update_session c f w) = store w"
  "trace (update_session c f w) = trace w"
  "length (sessions (update_session c f w)) = length (sessions w)"
  by (simp_all add: update_session_def)

lemma nth_update_session:
  "i < length (sessions w) \<Longrightarrow>
     sessions (update_session c f w) ! i = (if i = c then f (sessions w ! c) else sessions w ! i)"
  by (simp add: update_session_def)

lemma take_update_session:
  "n \<le> c \<Longrightarrow> take n (sessions (update_session c f w)) = take n (sessions w)"
  by (simp add: update_session_def)

lemma single_listenerD_slot:
  "single_listener w \<Longrightarrow> discordClient w = Some d \<Longrightarrow> d < length (sessions w)"
  unfolding single_listener_iff by blast

lemma single_listenerD_le:
  "single_listener w \<Longrightarrow> i < length (sessions w) \<Longrightarrow> listeners (sessions w ! i) \<le> 1"
  unfolding single_listener_iff by blast

lemma single_listenerD_live:
  "single_listener w \<Longrightarrow> i < length (sessions w) \<Longrightarrow> live_listener (sessions w ! i) \<Longrightarrow>
     discordClient w = Some i"
  unfolding single_listener_iff by blast

lemma single_listenerI:
  assumes "\<And>d. discordClient w = Some d \<Longrightarrow> d < length (sessions w)"
    and "\<And>i. i < length (sessions w) \<Longrightarrow> listeners (sessions w ! i) \<le> 1"
    and "\<And>i. i < length (sessions w) \<Longrightarrow> live_listener (sessions w ! i) \<Longrightarrow> discordClient w = Some i"
  shows "single_listener w"
  unfolding single_listener_iff using assms by blast

lemma single_listener_update:
  assumes inv: "single_listener w"
    and le: "c < length (sessions w) \<Longrightarrow> listeners (f (sessions w ! c)) \<le> 1"
    and live: "c < length (sessions w) \<Longrightarrow> live_listener (f (sessions w ! c)) \<Longrightarrow> discordClient w = Some c"
  shows "single_listener (update_session c f w)"
proof (rule single_listenerI)
  fix d
  assume "discordClient (update_session c f w) = Some d"
  then have "discordClient w = Some d" by simp
  from single_listenerD_slot [OF inv this]
  show "d < length (sessions (update_session c f w))" by simp
next
  fix i
  assume "i < length (sessions (update_session c f w))"
  then have i: "i < length (sessions w)" by simp
  show "listeners (sessions (update_session c f w) ! i) \<le> 1"
  proof (cases "i = c")
    case True
    with i le show ?thesis by (simp add: nth_update_session)
  next
    case False
    with i single_listenerD_le [OF inv i] show ?thesis by (simp add: nth_update_session)
  qed
next
  fix i
  assume "i < length (sessions (update_session c f w))"
    and l: "live_listener (sessions (update_session c f w) ! i)"
  then have i: "i < length (sessions w)" by simp
  have "discordClient w = Some i"
  proof (cases "i = c")
    case True
    with i l have "live_listener (f (sessions w ! c))" by (simp add: nth_update_session)
    with True i live show ?thesis by simp
  next
    case False
    with i l have "live_listener (sessions w ! i)" by (simp add: nth_update_session)
    with single_listenerD_live [OF inv i] show ?thesis by simp
  qed
  then show "discordClient (update_session c f w) = Some i" by simp
qed

lemma single_listener_destroy:
  assumes inv: "single_listener w"
  shows "single_listener (destroy c w)"
  unfolding destroy_def
proof (rule single_listener_update [OF inv])
  assume c: "c < length (sessions w)"
  from single_listenerD_le [OF inv c]
  show "listeners ((sessions w ! c)\<lparr>conn := Destroyed\<rparr>) \<le> 1" by simp
next
  assume "live_listener ((sessions w ! c)\<lparr>conn := Destroyed\<rparr>)"
  then show "discordClient w = Some c" by (simp add: live_listener_def)
qed

lemma sessions_new_Client:
  "sessions (snd (new_Client w)) =
     sessions w @ [\<lparr>conn = Unauthenticated, credential = None, client_user = None, listeners = 0\<rparr>]"
  by (simp add: new_Client_def)

lemma new_Client_fields [simp]:
  "env_token (snd (new_Client w)) = env_token w"
  "pending_logins (snd (new_Client w)) = pending_logins w"
  "discordClient (snd (new_Client w)) = discordClient w"
  "clients (snd (new_Client w)) = clients w"
  "readyState (snd (new_Client w)) = readyState w"
  "store (snd (new_Client w)) = store w"
  "trace (snd (new_Client w)) = trace w"
  "length (sessions (snd (new_Client w))) = Suc (length (sessions w))"
  by (simp_all add: new_Client_def)

lemma nth_new_Client:
  "sessions (snd (new_Client w)) ! i =
     (if i < length (sessions w) then sessions w ! i
      else (sessions w @ [\<lparr>conn = Unauthenticated, credential = None, client_user = None, listeners = 0\<rparr>]) ! i)"
  by (simp add: sessions_new_Client nth_append)

lemma nth_new_Client_new [simp]:
  "sessions (snd (new_Client w)) ! length (sessions w) =
     \<lparr>conn = Unauthenticated, credential = None, client_user = None, listeners = 0\<rparr>"
  by (simp add: sessions_new_Client)

lemma nth_new_Client_old [simp]:
  "i < length (sessions w) \<Longrightarrow> sessions (snd (new_Client w)) ! i = sessions w ! i"
  by (simp add: sessions_new_Client nth_append)

lemma single_listener_new_Client:
  assumes inv: "single_listener w"
  shows "single_listener (snd (new_Client w))"
proof (rule single_listenerI)
  fix d
  assume "discordClient (snd (new_Client w)) = Some d"
  then have "discordClient w = Some d" by simp
  from single_listenerD_slot [OF inv this]
  show "d < length (sessions (snd (new_Client w)))" by simp
next
  fix i
  assume "i < length (sessions (snd (new_Client w)))"
  then have "i < length (sessions w) \<or> i = length (sessions w)" by auto
  then show "listeners (sessions (snd (new_Client w)) ! i) \<le> 1"
  proof
    assume i: "i < length (sessions w)"
    with single_listenerD_le [OF inv i] show ?thesis by simp
  next
    assume "i = length (sessions w)"
    then show ?thesis by simp
  qed
next
  fix i
  assume "i < length (sessions (snd (new_Client w)))"
    and l: "live_listener (sessions (snd (new_Client w)) ! i)"
  then have "i < length (sessions w) \<or> i = length (sessions w)" by auto
  then have "discordClient w = Some i"
  proof
    assume i: "i < length (sessions w)"
    with l have "live_listener (sessions w ! i)" by simp
    with single_listenerD_live [OF inv i] show ?thesis by simp
  next
    assume "i = length (sessions w)"
    with l show ?thesis by (simp add: live_listener_def)
  qed
  then show "discordClient (snd (new_Client w)) = Some i" by simp
qed

lemma login_fields [simp]:
  "env_token (snd (login P c t w)) = env_token w"
  "pending_logins (snd (login P c t w)) = pending_logins w"
  "discordClient (snd (login P c t w)) = discordClient w"
  "clients (snd (login P c t w)) = clients w"
  "readyState (snd (login P c t w)) = readyState w"
  "store (snd (login P c t w)) = store w"
  "trace (snd (login P c t w)) = trace w"
  "length (sessions (snd (login P c t w))) = length (sessions w)"
  by (simp_all add: login_def)

lemma nth_login:
  "i < length (sessions w) \<Longrightarrow>
     sessions (snd (login P c t w)) ! i =
       (if i = c
        then (if login_ok P t
              then (sessions w ! c)\<lparr>conn := Authenticated, credential := Some t,
                                      client_user := Some (token_user P t)\<rparr>
              else (sessions w ! c)\<lparr>conn := Destroyed, credential := Some t\<rparr>)
        else sessions w ! i)"
  by (simp add: login_def nth_update_session)

lemma destroy_fields [simp]:
  "env_token (destroy c w) = env_token w"
  "pending_logins (destroy c w) = pending_logins w"
  "discordClient (destroy c w) = discordClient w"
  "clients (destroy c w) = clients w"
  "readyState (destroy c w) = readyState w"
  "store (destroy c w) = store w"
  "trace (destroy c w) = trace w"
  "length (sessions (destroy c w)) = length (sessions w)"
  by (simp_all add: destroy_def)

lemma nth_destroy:
  "i < length (sessions w) \<Longrightarrow>
     sessions (destroy c w) ! i =
       (if i = c then (sessions w ! c)\<lparr>conn := Destroyed\<rparr> else sessions w ! i)"
  by (simp add: destroy_def nth_update_session)

lemma on_MessageCreate_fields [simp]:
  "env_token (on_MessageCreate c w) = env_token w"
  "pending_logins (on_MessageCreate c w) = pending_logins w"
  "discordClient (on_MessageCreate c w) = discordClient w"
  "clients (on_MessageCreate c w) = clients w"
  "readyState (on_MessageCreate c w) = readyState w"
  "store (on_MessageCreate c w) = store w"
  "trace (on_MessageCreate c w) = trace w"
  "length (sessions (on_MessageCreate c w)) = length (sessions w)"
  by (simp_all add: on_MessageCreate_def)

lemma nth_on_MessageCreate:
  "i < length (sessions w) \<Longrightarrow>
     sessions (on_MessageCreate c w) ! i =
       (if i = c then (sessions w ! c)\<lparr>listeners := listeners (sessions w ! c) + 1\<rparr>
        else sessions w ! i)"
  by (simp add: on_MessageCreate_def nth_update_session)

lemma single_listener_login:
  assumes inv: "single_listener w"
    and eph: "c < length (sessions w) \<Longrightarrow> listeners (sessions w ! c) = 0 \<or> discordClient w = Some c"
  shows "single_listener (snd (login P c t w))"
  unfolding snd_login
proof (rule single_listener_update [OF inv])
  assume c: "c < length (sessions w)"
  from single_listenerD_le [OF inv c]
  show "listeners (if login_ok P t
            then (sessions w ! c)\<lparr>conn := Authenticated, credential := Some t,
                   client_user := Some (token_user P t)\<rparr>
            else (sessions w ! c)\<lparr>conn := Destroyed, credential := Some t\<rparr>) \<le> 1"
    by simp
next
  assume c: "c < length (sessions w)"
    and "live_listener (if login_ok P t
            then (sessions w ! c)\<lparr>conn := Authenticated, credential := Some t,
                   client_user := Some (token_user P t)\<rparr>
            else (sessions w ! c)\<lparr>conn := Destroyed, credential := Some t\<rparr>)"
  then have "0 < listeners (sessions w ! c)"
    by (simp add: live_listener_def split: if_splits)
  with eph [OF c] show "discordClient w = Some c" by simp
qed

lemma single_listener_handoff:
  assumes inv: "single_listener w" and c: "c < length (sessions w)"
    and zero: "listeners (sessions w ! c) = 0"
  shows "single_listener (listener_handoff c w)"
proof -
  define w1 where "w1 = (case discordClient w of Some old \<Rightarrow> destroy old w | None \<Rightarrow> w)"
  have len: "length (sessions w1) = length (sessions w)"
    by (simp add: w1_def split: option.splits)
  have le1: "listeners (sessions w1 ! i) \<le> 1" if i: "i < length (sessions w)" for i
    using single_listenerD_le [OF inv i] i
    by (simp add: w1_def nth_destroy split: option.splits)
  have dead: "\<not> live_listener (sessions w1 ! i)" if i: "i < length (sessions w)" for i
  proof
    assume l: "live_listener (sessions w1 ! i)"
    show False
    proof (cases "discordClient w")
      case None
      with l have "live_listener (sessions w ! i)" by (simp add: w1_def)
      from single_listenerD_live [OF inv i this] None show False by simp
    next
      case (Some old)
      show False
      proof (cases "i = old")
        case True
        with l Some i show False by (simp add: w1_def nth_destroy live_listener_def)
      next
        case False
        with l Some i have "live_listener (sessions w ! i)" by (simp add: w1_def nth_destroy)
        from single_listenerD_live [OF inv i this] Some False show False by simp
      qed
    qed
  qed
  have l1: "listeners (sessions w1 ! c) = 0"
    using c zero by (simp add: w1_def nth_destroy split: option.splits)
  have w2: "single_listener (w1\<lparr>discordClient := Some c\<rparr>)"
  proof (rule single_listenerI)
    fix d
    assume "discordClient (w1\<lparr>discordClient := Some c\<rparr>) = Some d"
    with c len show "d < length (sessions (w1\<lparr>discordClient := Some c\<rparr>))" by simp
  next
    fix i
    assume "i < length (sessions (w1\<lparr>discordClient := Some c\<rparr>))"
    with len le1 [of i] show "listeners (sessions (w1\<lparr>discordClient := Some c\<rparr>) ! i) \<le> 1" by simp
  next
    fix i
    assume "i < length (sessions (w1\<lparr>discordClient := Some c\<rparr>))"
      and "live_listener (sessions (w1\<lparr>discordClient := Some c\<rparr>) ! i)"
    with len dead [of i] show "discordClient (w1\<lparr>discordClient := Some c\<rparr>) = Some i" by simp
  qed
  have "single_listener (update_session c (\<lambda>s. s\<lparr>listeners := listeners s + 1\<rparr>)
          (w1\<lparr>discordClient := Some c\<rparr>))"
  proof (rule single_listener_update [OF w2])
    from l1 show "listeners ((sessions (w1\<lparr>discordClient := Some c\<rparr>) ! c)
        \<lparr>listeners := listeners (sessions (w1\<lparr>discordClient := Some c\<rparr>) ! c) + 1\<rparr>) \<le> 1"
      by simp
  next
    show "discordClient (w1\<lparr>discordClient := Some c\<rparr>) = Some c" by simp
  qed
  then show ?thesis
    by (simp add: listener_handoff_def w1_def Let_def on_MessageCreate_def)
qed

lemma single_listener_ephemeral:
  assumes inv: "single_listener w"
  shows "single_listener (destroy (length (sessions w))
           (snd (login P (length (sessions w)) t (snd (new_Client w)))))"
proof -
  have "single_listener (snd (login P (length (sessions w)) t (snd (new_Client w))))"
    by (rule single_listener_login [OF single_listener_new_Client [OF inv]]) simp
  then show ?thesis by (rule single_listener_destroy)
qed

lemma fst_dm_single:
  "fst (dm_single P v w) = w \<or>
   (\<exists>t. fst (dm_single P v w) =
      destroy (length (sessions w)) (snd (login P (length (sessions w)) t (snd (new_Client w)))))"
  by (auto simp: dm_single_def Let_def split_beta split: option.splits awaited.splits bool.splits)

lemma fst_guild_members:
  "fst (guild_members P req w) = w \<or>
   (\<exists>t. fst (guild_members P req w) =
      destroy (length (sessions w)) (snd (login P (length (sessions w)) t (snd (new_Client w)))))"
  by (auto simp: guild_members_def Let_def split_beta split: option.splits awaited.splits bool.splits)

lemma fst_guilds:
  "fst (guilds P t w) = w \<or>
   (\<exists>t'. fst (guilds P t w) =
      destroy (length (sessions w)) (snd (login P (length (sessions w)) t' (snd (new_Client w)))))"
  by (auto simp: guilds_def Let_def split_beta split: option.splits awaited.splits bool.splits)

lemma dm_bulk_cases:
  "dm_bulk P v w =
     (case v of
        None \<Rightarrow> (w, Response 400 None)
      | Some req \<Rightarrow>
          if falsy (or_token (env_token w) (bulk_token req)) then (w, Response 400 None)
          else if login_ok P (the (or_token (env_token w) (bulk_token req)))
          then (listener_handoff (length (sessions w))
                  (snd (login P (length (sessions w)) (the (or_token (env_token w) (bulk_token req)))
                     (snd (new_Client w)))),
                Response 200
                  (Some (fst (send_loop P (bulk_message req) (delay req)
                     (resolve_targets P (userIds req) (selectAll req))))))
          else (destroy (length (sessions w))
                  (snd (login P (length (sessions w)) (the (or_token (env_token w) (bulk_token req)))
                     (snd (new_Client w)))),
                Response 400 None))"
  by (simp add: dm_bulk_def Let_def split_beta split: option.splits bool.splits)

lemma single_listener_dm_bulk:
  assumes inv: "single_listener w"
  shows "single_listener (fst (dm_bulk P v w))"
proof -
  have "single_listener (listener_handoff (length (sessions w))
          (snd (login P (length (sessions w)) t (snd (new_Client w)))))" for t
  proof (rule single_listener_handoff)
    show "single_listener (snd (login P (length (sessions w)) t (snd (new_Client w))))"
      by (rule single_listener_login [OF single_listener_new_Client [OF inv]]) simp
    show "length (sessions w) < length (sessions (snd (login P (length (sessions w)) t (snd (new_Client w)))))"
      by simp
    show "listeners (sessions (snd (login P (length (sessions w)) t (snd (new_Client w)))) ! length (sessions w)) = 0"
      by (simp add: nth_login)
  qed
  with inv single_listener_ephemeral [OF inv] show ?thesis
    by (simp add: dm_bulk_cases split: option.splits)
qed

lemma single_listener_cong:
  assumes "sessions w' = sessions w" and "discordClient w' = discordClient w"
  shows "single_listener w' = single_listener w"
  unfolding single_listener_iff assms ..

lemma listener_handoff_fields [simp]:
  "env_token (listener_handoff c w) = env_token w"
  "pending_logins (listener_handoff c w) = pending_logins w"
  "discordClient (listener_handoff c w) = Some c"
  "clients (listener_handoff c w) = clients w"
  "readyState (listener_handoff c w) = readyState w"
  "store (listener_handoff c w) = store w"
  "trace (listener_handoff c w) = trace w"
  "length (sessions (listener_handoff c w)) = length (sessions w)"
  by (simp_all add: listener_handoff_def Let_def split: option.splits)

lemma nth_listener_handoff:
  assumes "i < length (sessions w)"
  shows "sessions (listener_handoff c w) ! i =
     (let s = (if discordClient w = Some i then (sessions w ! i)\<lparr>conn := Destroyed\<rparr>
               else sessions w ! i)
      in if i = c then s\<lparr>listeners := listeners s + 1\<rparr> else s)"
  using assms
  by (simp add: listener_handoff_def Let_def nth_on_MessageCreate nth_destroy split: option.splits)

lemma fst_listener_attach [simp]: "fst (listener_attach t w) = length (sessions w)"
  by (simp add: listener_attach_def Let_def split_beta split: option.splits)

lemma snd_listener_attach:
  assumes slot: "\<And>old. discordClient w = Some old \<Longrightarrow> old < length (sessions w)"
  shows "snd (listener_attach t w) =
     (listener_handoff (length (sessions w)) (snd (new_Client w)))
       \<lparr>pending_logins := pending_logins w @ [(length (sessions w), t)]\<rparr>"
proof (cases "discordClient w")
  case None
  then show ?thesis
    by (simp add: listener_attach_def listener_handoff_def Let_def split_beta)
next
  case (Some old)
  with slot have "old < length (sessions w)" by simp
  then have "snd (new_Client ((destroy old w)\<lparr>discordClient := None\<rparr>))\<lparr>discordClient := Some (length (sessions w))\<rparr>
        = (destroy old (snd (new_Client w)))\<lparr>discordClient := Some (length (sessions w))\<rparr>"
    by (simp add: new_Client_def destroy_def update_session_def list_update_append nth_append)
  with Some show ?thesis
    by (simp add: listener_attach_def listener_handoff_def Let_def split_beta)
qed

lemma listener_settled_eq:
  "listener_settled P c t w =
     (snd (login P c t (w\<lparr>pending_logins := filter (\<lambda>p. fst p \<noteq> c) (pending_logins w)\<rparr>)),
      if login_ok P t then Response 200 (Some ()) else Response 500 None)"
  by (simp add: listener_settled_def split_beta split: bool.splits)

lemma startReplyListener_eq:
  "startReplyListener P token w =
     (if falsy token then (w, Response 400 None)
      else listener_settled P (length (sessions w)) (the token) (snd (listener_attach (the token) w)))"
  by (simp add: startReplyListener_def split_beta)

lemma single_listener_attach:
  assumes inv: "single_listener w"
  shows "single_listener (snd (listener_attach t w))"
proof -
  have h: "single_listener (listener_handoff (length (sessions w)) (snd (new_Client w)))"
    by (rule single_listener_handoff [OF single_listener_new_Client [OF inv]]) simp_all
  have "single_listener ((listener_handoff (length (sessions w)) (snd (new_Client w)))
       \<lparr>pending_logins := pending_logins w @ [(length (sessions w), t)]\<rparr>)
     = single_listener (listener_handoff (length (sessions w)) (snd (new_Client w)))"
    by (rule single_listener_cong) simp_all
  with h show ?thesis
    by (simp add: snd_listener_attach [OF single_listenerD_slot [OF inv]])
qed

lemma single_listener_settled:
  assumes inv: "single_listener w" and slot: "discordClient w = Some c"
  shows "single_listener (fst (listener_settled P c t w))"
proof -
  let ?w = "w\<lparr>pending_logins := filter (\<lambda>p. fst p \<noteq> c) (pending_logins w)\<rparr>"
  have "single_listener ?w = single_listener w"
    by (rule single_listener_cong) simp_all
  with inv have "single_listener ?w" by simp
  then have "single_listener (snd (login P c t ?w))"
    by (rule single_listener_login) (simp add: slot)
  then show ?thesis
    by (simp add: listener_settled_eq)
qed

lemma single_listener_startReplyListener:
  assumes inv: "single_listener w"
  shows "single_listener (fst (startReplyListener P token w))"
proof (cases "falsy token")
  case True
  with inv show ?thesis by (simp add: startReplyListener_eq)
next
  case False
  have "discordClient (snd (listener_attach (the token) w)) = Some (length (sessions w))"
    by (simp add: snd_listener_attach [OF single_listenerD_slot [OF inv]])
  from single_listener_settled [OF single_listener_attach [OF inv] this] False
  show ?thesis by (simp add: startReplyListener_eq)
qed

lemma ws_send_fields [simp]:
  "env_token (ws_send c ev w) = env_token w"
  "pending_logins (ws_send c ev w) = pending_logins w"
  "sessions (ws_send c ev w) = sessions w"
  "discordClient (ws_send c ev w) = discordClient w"
  "clients (ws_send c ev w) = clients w"
  "readyState (ws_send c ev w) = readyState w"
  "store (ws_send c ev w) = store w"
  "trace (ws_send c ev w) = trace w @ [WsSend c ev]"
  by (simp_all add: ws_send_def)

lemma foldl_ws_send:
  "env_token (foldl (\<lambda>w' c. if readyState w' c = OPEN then ws_send c ev w' else w') w cs) = env_token w
   \<and> sessions (foldl (\<lambda>w' c. if readyState w' c = OPEN then ws_send c ev w' else w') w cs) = sessions w
   \<and> discordClient (foldl (\<lambda>w' c. if readyState w' c = OPEN then ws_send c ev w' else w') w cs) = discordClient w
   \<and> clients (foldl (\<lambda>w' c. if readyState w' c = OPEN then ws_send c ev w' else w') w cs) = clients w
   \<and> readyState (foldl (\<lambda>w' c. if readyState w' c = OPEN then ws_send c ev w' else w') w cs) = readyState w
   \<and> pending_logins (foldl (\<lambda>w' c. if readyState w' c = OPEN then ws_send c ev w' else w') w cs) = pending_logins w
   \<and> store (foldl (\<lambda>w' c. if readyState w' c = OPEN then ws_send c ev w' else w') w cs) = store w
   \<and> trace (foldl (\<lambda>w' c. if readyState w' c = OPEN then ws_send c ev w' else w') w cs)
       = trace w @ map (\<lambda>c. WsSend c ev) (filter (\<lambda>c. readyState w c = OPEN) cs)"
proof (induction cs arbitrary: w)
  case Nil
  show ?case by simp
next
  case (Cons c cs)
  show ?case
    by (simp add: Cons.IH)
qed

lemma broadcast_fields [simp]:
  "env_token (broadcast ev w) = env_token w"
  "pending_logins (broadcast ev w) = pending_logins w"
  "sessions (broadcast ev w) = sessions w"
  "discordClient (broadcast ev w) = discordClient w"
  "clients (broadcast ev w) = clients w"
  "readyState (broadcast ev w) = readyState w"
  "store (broadcast ev w) = store w"
  by (simp_all add: broadcast_def foldl_ws_send)

lemma trace_broadcast:
  "trace (broadcast ev w) =
     trace w @ map (\<lambda>c. WsSend c ev) (filter (\<lambda>c. readyState w c = OPEN) (clients w))"
  by (simp add: broadcast_def foldl_ws_send)

lemma db_insert_fields [simp]:
  "fst (db_insert ok v w) = (if ok then Resolves v else Throws)"
  "env_token (snd (db_insert ok v w)) = env_token w"
  "pending_logins (snd (db_insert ok v w)) = pending_logins w"
  "sessions (snd (db_insert ok v w)) = sessions w"
  "discordClient (snd (db_insert ok v w)) = discordClient w"
  "clients (snd (db_insert ok v w)) = clients w"
  "readyState (snd (db_insert ok v w)) = readyState w"
  "store (snd (db_insert ok v w)) = (if ok then store w @ [v] else store w)"
  "trace (snd (db_insert ok v w)) = (if ok then trace w @ [DbInsert v] else trace w)"
  by (simp_all add: db_insert_def)

lemma store_then_broadcast:
  "(case db_insert ok v w of (Throws, w1) \<Rightarrow> w1 | (Resolves r, w1) \<Rightarrow> broadcast (NewReply r) w1)
     = (if ok then broadcast (NewReply v) (snd (db_insert ok v w)) else w)"
  by (simp add: db_insert_def)

lemma message_handler_eq:
  "message_handler ok now msg w =
     (if channel_isDMBased msg \<and> \<not> user_bot (author msg) \<and> ok
      then broadcast (NewReply (reply_of_message now msg))
             (snd (db_insert ok (reply_of_message now msg) w))
      else w)"
  by (simp add: message_handler_def saveMessageReply_def store_then_broadcast)

lemma post_replies_eq:
  "fst (post_replies ok now b w) =
     (if ok then broadcast (NewReply (reply_of_body now b)) (snd (db_insert ok (reply_of_body now b) w))
      else w)"
  by (simp add: post_replies_def db_insert_def)

lemma ws_on_message_eq:
  "ws_on_message ok now d w =
     (case d of
        Unparsable \<Rightarrow> w
      | Parsed type b \<Rightarrow>
          if type = ''reply'' \<and> ok
          then broadcast (NewReply (reply_of_body now b)) (snd (db_insert ok (reply_of_body now b) w))
          else w)"
  by (simp add: ws_on_message_def store_then_broadcast split: ws_data.splits)

lemma message_handler_control [simp]:
  "sessions (message_handler ok now msg w) = sessions w"
  "discordClient (message_handler ok now msg w) = discordClient w"
  "clients (message_handler ok now msg w) = clients w"
  "readyState (message_handler ok now msg w) = readyState w"
  "env_token (message_handler ok now msg w) = env_token w"
  "pending_logins (message_handler ok now msg w) = pending_logins w"
  by (simp_all add: message_handler_eq)

lemma funpow_message_handler_control [simp]:
  "sessions ((message_handler ok now msg ^^ n) w) = sessions w"
  "discordClient ((message_handler ok now msg ^^ n) w) = discordClient w"
  "clients ((message_handler ok now msg ^^ n) w) = clients w"
  "readyState ((message_handler ok now msg ^^ n) w) = readyState w"
  "env_token ((message_handler ok now msg ^^ n) w) = env_token w"
  "pending_logins ((message_handler ok now msg ^^ n) w) = pending_logins w"
  by (induction n) simp_all

lemma single_listener_dm_single:
  assumes inv: "single_listener w"
  shows "single_listener (fst (dm_single P v w))"
  using fst_dm_single [of P v w]
proof (elim disjE exE)
  assume "fst (dm_single P v w) = w"
  with inv show ?thesis by simp
next
  fix t
  assume "fst (dm_single P v w) =
      destroy (length (sessions w)) (snd (login P (length (sessions w)) t (snd (new_Client w))))"
  with single_listener_ephemeral [OF inv, of P t] show ?thesis by simp
qed

lemma single_listener_guild_members:
  assumes inv: "single_listener w"
  shows "single_listener (fst (guild_members P req w))"
  using fst_guild_members [of P req w]
proof (elim disjE exE)
  assume "fst (guild_members P req w) = w"
  with inv show ?thesis by simp
next
  fix t
  assume "fst (guild_members P req w) =
      destroy (length (sessions w)) (snd (login P (length (sessions w)) t (snd (new_Client w))))"
  with single_listener_ephemeral [OF inv, of P t] show ?thesis by simp
qed

lemma single_listener_guilds:
  assumes inv: "single_listener w"
  shows "single_listener (fst (guilds P r w))"
  using fst_guilds [of P r w]
proof (elim disjE exE)
  assume "fst (guilds P r w) = w"
  with inv show ?thesis by simp
next
  fix t
  assume "fst (guilds P r w) =
      destroy (length (sessions w)) (snd (login P (length (sessions w)) t (snd (new_Client w))))"
  with single_listener_ephemeral [OF inv, of P t] show ?thesis by simp
qed

section \<open>Tokens, and the bulk handler's exits\<close>

lemma sessions_ephemeral:
  "sessions (destroy (length (sessions w)) (snd (login P (length (sessions w)) t (snd (new_Client w)))))
     = sessions w @ [\<lparr>conn = Destroyed, credential = Some t,
                        client_user = (if login_ok P t then Some (token_user P t) else None),
                        listeners = 0\<rparr>]"
  by (simp add: destroy_def login_def update_session_def new_Client_def)

lemma sessions_logged_in:
  "sessions (snd (login P (length (sessions w)) t (snd (new_Client w))))
     = sessions w @ [\<lparr>conn = (if login_ok P t then Authenticated else Destroyed),
                        credential = Some t,
                        client_user = (if login_ok P t then Some (token_user P t) else None),
                        listeners = 0\<rparr>]"
  by (simp add: login_def update_session_def new_Client_def)

lemma falsy_the: "\<not> falsy t \<Longrightarrow> Some (the t) = t"
  by (cases t) (simp_all add: falsy_def)

lemma credential_used_ephemeral:
  "credential_used w (destroy (length (sessions w))
       (snd (login P (length (sessions w)) t (snd (new_Client w))))) = Some t"
  by (simp add: credential_used_def sessions_ephemeral)

lemma credential_used_handoff:
  "credential_used w (listener_handoff (length (sessions w))
       (snd (login P (length (sessions w)) t (snd (new_Client w))))) = Some t"
  by (simp add: credential_used_def nth_listener_handoff sessions_logged_in Let_def)

lemma credential_used_same [simp]: "credential_used w w = None"
  by (simp add: credential_used_def)

lemma credential_dm_bulk:
  "credential_used w (fst (dm_bulk P (Some req) w)) =
     (if falsy (or_token (env_token w) (bulk_token req)) then None
      else or_token (env_token w) (bulk_token req))"
  by (simp add: dm_bulk_cases credential_used_ephemeral credential_used_handoff falsy_the)

lemma dm_single_cases:
  "fst (dm_single P v w) =
     (case v of
        None \<Rightarrow> w
      | Some req \<Rightarrow>
          if falsy (or_token (env_token w) (single_token req)) then w
          else destroy (length (sessions w))
                 (snd (login P (length (sessions w)) (the (or_token (env_token w) (single_token req)))
                    (snd (new_Client w)))))"
  by (simp add: dm_single_def Let_def split_beta split: option.splits awaited.splits bool.splits)

lemma guild_members_cases:
  "fst (guild_members P req w) =
     (if falsy (or_token (env_token w) (members_token req)) then w
      else destroy (length (sessions w))
             (snd (login P (length (sessions w)) (the (or_token (env_token w) (members_token req)))
                (snd (new_Client w)))))"
  by (simp add: guild_members_def Let_def split_beta split: option.splits awaited.splits bool.splits)

lemma guilds_cases:
  "fst (guilds P t w) =
     (if falsy (or_token (env_token w) t) then w
      else destroy (length (sessions w))
             (snd (login P (length (sessions w)) (the (or_token (env_token w) t))
                (snd (new_Client w)))))"
  by (simp add: guilds_def Let_def split_beta split: option.splits awaited.splits bool.splits)

lemma credential_dm_single:
  "credential_used w (fst (dm_single P (Some req) w)) =
     (if falsy (or_token (env_token w) (single_token req)) then None
      else or_token (env_token w) (single_token req))"
  by (simp add: dm_single_cases credential_used_ephemeral falsy_the)

lemma credential_guild_members:
  "credential_used w (fst (guild_members P req w)) =
     (if falsy (or_token (env_token w) (members_token req)) then None
      else or_token (env_token w) (members_token req))"
  by (simp add: guild_members_cases credential_used_ephemeral falsy_the)

lemma credential_guilds:
  "credential_used w (fst (guilds P t w)) =
     (if falsy (or_token (env_token w) t) then None else or_token (env_token w) t)"
  by (simp add: guilds_cases credential_used_ephemeral falsy_the)

lemma credential_startReplyListener:
  "credential_used w (fst (startReplyListener P t w)) = (if falsy t then None else t)"
proof (cases "falsy t")
  case True
  then show ?thesis by (simp add: startReplyListener_def)
next
  case False
  define w1 where "w1 = (case discordClient w of
                    Some old \<Rightarrow> (destroy old w)\<lparr>discordClient := None\<rparr>
                  | None \<Rightarrow> w)"
  have len: "length (sessions w1) = length (sessions w)"
    by (simp add: w1_def split: option.splits)
  have "sessions (snd (listener_attach (the t) w)) =
      sessions (on_MessageCreate (length (sessions w))
        ((snd (new_Client w1))\<lparr>discordClient := Some (length (sessions w))\<rparr>))"
    using len by (simp add: listener_attach_def Let_def split_beta w1_def [symmetric])
  then have "credential (sessions (fst (startReplyListener P t w)) ! length (sessions w)) = Some (the t)"
    and "length (sessions w) < length (sessions (fst (startReplyListener P t w)))"
    using False len
    by (simp_all add: startReplyListener_eq listener_settled_eq nth_login nth_on_MessageCreate
        sessions_new_Client)
  with False show ?thesis
    by (simp add: credential_used_def falsy_the)
qed

text \<open>
  C8, as amended. The four handlers that read \<^verbatim>\<open>process.env.DISCORD_BOT_TOKEN\<close> (single
  message, member preview, guild list, bulk send) log their client in with the configured
  token when it is present and with the request's token otherwise, and open no client when
  both are absent. The listener start reads the request's token only: it logs in with that
  token whatever the configuration holds, and answers 400 without it.
\<close>

theorem token_precedence:
  "credential_used w (fst (dm_single P (Some sreq) w)) =
     (if \<not> falsy (env_token w) then env_token w
      else if \<not> falsy (single_token sreq) then single_token sreq else None)
   \<and> credential_used w (fst (guild_members P mreq w)) =
     (if \<not> falsy (env_token w) then env_token w
      else if \<not> falsy (members_token mreq) then members_token mreq else None)
   \<and> credential_used w (fst (guilds P gtoken w)) =
     (if \<not> falsy (env_token w) then env_token w
      else if \<not> falsy gtoken then gtoken else None)
   \<and> credential_used w (fst (dm_bulk P (Some breq) w)) =
     (if \<not> falsy (env_token w) then env_token w
      else if \<not> falsy (bulk_token breq) then bulk_token breq else None)
   \<and> credential_used w (fst (startReplyListener P ltoken w)) =
     (if \<not> falsy ltoken then ltoken else None)
   \<and> (falsy ltoken \<longrightarrow> startReplyListener P ltoken w = (w, Response 400 None))"
proof (intro conjI impI)
  show "credential_used w (fst (dm_single P (Some sreq) w)) =
     (if \<not> falsy (env_token w) then env_token w
      else if \<not> falsy (single_token sreq) then single_token sreq else None)"
    by (simp add: credential_dm_single or_token_def)
  show "credential_used w (fst (guild_members P mreq w)) =
     (if \<not> falsy (env_token w) then env_token w
      else if \<not> falsy (members_token mreq) then members_token mreq else None)"
    by (simp add: credential_guild_members or_token_def)
  show "credential_used w (fst (guilds P gtoken w)) =
     (if \<not> falsy (env_token w) then env_token w
      else if \<not> falsy gtoken then gtoken else None)"
    by (simp add: credential_guilds or_token_def)
  show "credential_used w (fst (dm_bulk P (Some breq) w)) =
     (if \<not> falsy (env_token w) then env_token w
      else if \<not> falsy (bulk_token breq) then bulk_token breq else None)"
    by (simp add: credential_dm_bulk or_token_def)
  show "credential_used w (fst (startReplyListener P ltoken w)) =
     (if \<not> falsy ltoken then ltoken else None)"
    by (simp add: credential_startReplyListener)
next
  assume "falsy ltoken"
  then show "startReplyListener P ltoken w = (w, Response 400 None)"
    by (simp add: startReplyListener_def)
qed

theorem token_precedence_witness:
  "credential_used (initial_world (Some ''good''))
     (fst (dm_bulk demo_platform (Some ((demo_bulk [''A''] False)\<lparr>bulk_token := Some ''mine''\<rparr>))
        (initial_world (Some ''good'')))) = Some ''good''
   \<and> credential_used (initial_world None)
     (fst (dm_bulk demo_platform (Some ((demo_bulk [''A''] False)\<lparr>bulk_token := Some ''mine''\<rparr>))
        (initial_world None))) = Some ''mine''
   \<and> falsy None
   \<and> startReplyListener demo_platform None (initial_world (Some ''good''))
       = (initial_world (Some ''good''), Response 400 None)"
proof -
  have f: "falsy None" by (simp add: falsy_def)
  from f
    token_precedence [of "initial_world (Some ''good'')" demo_platform demo_single demo_members None
      "(demo_bulk [''A''] False)\<lparr>bulk_token := Some ''mine''\<rparr>" None]
    token_precedence [of "initial_world None" demo_platform demo_single demo_members None
      "(demo_bulk [''A''] False)\<lparr>bulk_token := Some ''mine''\<rparr>" None]
  show ?thesis
    by (simp add: initial_world_def falsy_def demo_bulk_def)
qed

text \<open>
  The claim as stated fails at the listener start: with a configured token and a request
  token both present, the client is logged in with the request's token.
\<close>

theorem token_precedence_counterexample:
  "\<not> falsy (env_token (initial_world (Some ''good''))) \<and> \<not> falsy (Some ''mine'')
   \<and> credential_used (initial_world (Some ''good''))
        (fst (startReplyListener demo_platform (Some ''mine'') (initial_world (Some ''good''))))
      = Some ''mine''
   \<and> credential_used (initial_world (Some ''good''))
        (fst (startReplyListener demo_platform (Some ''mine'') (initial_world (Some ''good''))))
      \<noteq> env_token (initial_world (Some ''good''))"
  by (simp add: credential_startReplyListener falsy_def initial_world_def)

lemma status_dm_bulk:
  "status (snd (dm_bulk P v w)) = 200 \<longleftrightarrow>
     (\<exists>req. v = Some req \<and> \<not> falsy (or_token (env_token w) (bulk_token req))
        \<and> login_ok P (the (or_token (env_token w) (bulk_token req))))"
  by (simp add: dm_bulk_cases split: option.splits)

text \<open>
  C10. A bulk request that does not end with status 200 (validation, missing token, or a
  login that throws) leaves the variable \<^verbatim>\<open>discordClient\<close> and every client that existed
  before untouched, so the previous listening client is neither destroyed nor replaced; the
  only client it may have created is destroyed; subscribers, store and effects are
  unchanged. The request ends with 200 exactly when its body is valid, a token is present
  and the login succeeds, and only then is the variable set, to the client of the request.
\<close>

theorem bulk_abort_keeps_listener:
  "(status (snd (dm_bulk P v w)) \<noteq> 200 \<longrightarrow>
      discordClient (fst (dm_bulk P v w)) = discordClient w
      \<and> take (length (sessions w)) (sessions (fst (dm_bulk P v w))) = sessions w
      \<and> list_all (\<lambda>s. conn s = Destroyed) (drop (length (sessions w)) (sessions (fst (dm_bulk P v w))))
      \<and> clients (fst (dm_bulk P v w)) = clients w
      \<and> store (fst (dm_bulk P v w)) = store w
      \<and> trace (fst (dm_bulk P v w)) = trace w)
   \<and> (status (snd (dm_bulk P v w)) = 200 \<longleftrightarrow>
        (\<exists>req. v = Some req \<and> \<not> falsy (or_token (env_token w) (bulk_token req))
           \<and> login_ok P (the (or_token (env_token w) (bulk_token req)))))
   \<and> (status (snd (dm_bulk P v w)) = 200 \<longrightarrow>
        discordClient (fst (dm_bulk P v w)) = Some (length (sessions w)))"
proof (intro conjI impI)
  assume "status (snd (dm_bulk P v w)) \<noteq> 200"
  then have "fst (dm_bulk P v w) = w \<or>
      (\<exists>t. fst (dm_bulk P v w) = destroy (length (sessions w))
              (snd (login P (length (sessions w)) t (snd (new_Client w)))))"
    by (auto simp: dm_bulk_cases split: option.splits if_splits)
  then show "discordClient (fst (dm_bulk P v w)) = discordClient w"
    and "take (length (sessions w)) (sessions (fst (dm_bulk P v w))) = sessions w"
    and "list_all (\<lambda>s. conn s = Destroyed) (drop (length (sessions w)) (sessions (fst (dm_bulk P v w))))"
    and "clients (fst (dm_bulk P v w)) = clients w"
    and "store (fst (dm_bulk P v w)) = store w"
    and "trace (fst (dm_bulk P v w)) = trace w"
    by (auto simp: sessions_ephemeral)
next
  show "status (snd (dm_bulk P v w)) = 200 \<longleftrightarrow>
        (\<exists>req. v = Some req \<and> \<not> falsy (or_token (env_token w) (bulk_token req))
           \<and> login_ok P (the (or_token (env_token w) (bulk_token req))))"
    by (rule status_dm_bulk)
next
  assume "status (snd (dm_bulk P v w)) = 200"
  then show "discordClient (fst (dm_bulk P v w)) = Some (length (sessions w))"
    by (auto simp: dm_bulk_cases split: option.splits if_splits)
qed


lemma demo_listening_eq:
  "demo_listening =
     \<lparr>env_token = None,
      sessions = [\<lparr>conn = Authenticated, credential = Some ''good'',
                   client_user = Some bot_account, listeners = 1\<rparr>],
      discordClient = Some 0, pending_logins = [], clients = [],
      readyState = (\<lambda>_. CONNECTING), store = [], trace = []\<rparr>"
  by (simp add: demo_listening_def startReplyListener_def listener_attach_def
      listener_settled_def initial_world_def falsy_def Let_def new_Client_def on_MessageCreate_def
      update_session_def login_def demo_platform_def)

theorem bulk_abort_keeps_listener_witness:
  "status (snd (dm_bulk demo_platform (Some ((demo_bulk [''A''] False)\<lparr>bulk_token := Some ''bad''\<rparr>))
       demo_listening)) \<noteq> 200
   \<and> discordClient (fst (dm_bulk demo_platform
         (Some ((demo_bulk [''A''] False)\<lparr>bulk_token := Some ''bad''\<rparr>)) demo_listening)) = Some 0
   \<and> take 1 (sessions (fst (dm_bulk demo_platform
         (Some ((demo_bulk [''A''] False)\<lparr>bulk_token := Some ''bad''\<rparr>)) demo_listening)))
       = [\<lparr>conn = Authenticated, credential = Some ''good'',
            client_user = Some bot_account, listeners = 1\<rparr>]
   \<and> status (snd (dm_bulk demo_platform (Some ((demo_bulk [''A''] False)\<lparr>bulk_token := Some ''good''\<rparr>))
       demo_listening)) = 200
   \<and> discordClient (fst (dm_bulk demo_platform
         (Some ((demo_bulk [''A''] False)\<lparr>bulk_token := Some ''good''\<rparr>)) demo_listening)) = Some 1"
proof -
  have bad: "status (snd (dm_bulk demo_platform
      (Some ((demo_bulk [''A''] False)\<lparr>bulk_token := Some ''bad''\<rparr>)) demo_listening)) \<noteq> 200"
    by (simp add: status_dm_bulk demo_listening_eq or_token_def falsy_def demo_bulk_def
        demo_platform_def)
  have good: "status (snd (dm_bulk demo_platform
      (Some ((demo_bulk [''A''] False)\<lparr>bulk_token := Some ''good''\<rparr>)) demo_listening)) = 200"
    by (simp add: status_dm_bulk demo_listening_eq or_token_def falsy_def demo_bulk_def
        demo_platform_def)
  from bad good
    bulk_abort_keeps_listener [of demo_platform
      "Some ((demo_bulk [''A''] False)\<lparr>bulk_token := Some ''bad''\<rparr>)" demo_listening]
    bulk_abort_keeps_listener [of demo_platform
      "Some ((demo_bulk [''A''] False)\<lparr>bulk_token := Some ''good''\<rparr>)" demo_listening]
  show ?thesis
    by (simp add: demo_listening_eq)
qed

section \<open>The listening client\<close>

lemma filter_upt_at_most_one:
  "(\<And>i. i < m \<Longrightarrow> Q i \<Longrightarrow> i = c) \<Longrightarrow>
     filter Q [0..<m] = (if c < m \<and> Q c then [c] else [])"
proof (induction m)
  case 0
  show ?case by simp
next
  case (Suc m)
  have "filter Q [0..<m] = (if c < m \<and> Q c then [c] else [])"
    by (rule Suc.IH) (simp add: Suc.prems)
  moreover have "Q m \<Longrightarrow> m = c"
    by (rule Suc.prems) simp_all
  ultimately show ?case
    by (auto simp: less_Suc_eq)
qed

lemma listening_live: "listening s \<Longrightarrow> live_listener s"
  by (simp add: listening_def live_listener_def)

lemma listening_clients_slot:
  assumes inv: "single_listener w" and slot: "discordClient w = Some c"
  shows "listening_clients w = (if listening (sessions w ! c) then [c] else [])"
proof -
  have "filter (\<lambda>i. listening (sessions w ! i)) [0..<length (sessions w)] =
      (if c < length (sessions w) \<and> listening (sessions w ! c) then [c] else [])"
  proof (rule filter_upt_at_most_one)
    fix i
    assume i: "i < length (sessions w)" and "listening (sessions w ! i)"
    then have "live_listener (sessions w ! i)" by (simp add: listening_live)
    from single_listenerD_live [OF inv i this] slot show "i = c" by simp
  qed
  with single_listenerD_slot [OF inv slot] show ?thesis
    by (simp add: listening_clients_def)
qed

lemma listening_clients_none:
  assumes inv: "single_listener w" and slot: "discordClient w = None"
  shows "listening_clients w = []"
proof -
  have "filter (\<lambda>i. listening (sessions w ! i)) [0..<length (sessions w)] =
      (if length (sessions w) < length (sessions w) \<and> listening (sessions w ! length (sessions w))
       then [length (sessions w)] else [])"
  proof (rule filter_upt_at_most_one)
    fix i
    assume i: "i < length (sessions w)" and "listening (sessions w ! i)"
    then have "live_listener (sessions w ! i)" by (simp add: listening_live)
    from single_listenerD_live [OF inv i this] slot show "i = length (sessions w)" by simp
  qed
  then show ?thesis
    by (simp add: listening_clients_def)
qed

lemma listening_clients_at_most_one:
  assumes inv: "single_listener w"
  shows "length (listening_clients w) \<le> 1
     \<and> set (listening_clients w) \<subseteq> set_option (discordClient w)"
proof (cases "discordClient w")
  case None
  with listening_clients_none [OF inv] show ?thesis by simp
next
  case (Some c)
  with listening_clients_slot [OF inv Some] show ?thesis by simp
qed

subsection \<open>What a promotion leaves\<close>

lemma promoted_by_bulk:
  assumes inv: "single_listener w" and ok: "status (snd (dm_bulk P v w)) = 200"
  shows "discordClient (fst (dm_bulk P v w)) = Some (length (sessions w))
     \<and> listening_clients (fst (dm_bulk P v w)) = [length (sessions w)]
     \<and> (\<forall>old. discordClient w = Some old \<longrightarrow>
           old < length (sessions w) \<and> conn (sessions (fst (dm_bulk P v w)) ! old) = Destroyed)"
proof -
  from ok obtain t where t: "login_ok P t"
    and w': "fst (dm_bulk P v w) = listener_handoff (length (sessions w))
               (snd (login P (length (sessions w)) t (snd (new_Client w))))"
    by (auto simp: dm_bulk_cases split: option.splits if_splits)
  let ?n = "length (sessions w)"
  let ?w2 = "snd (login P ?n t (snd (new_Client w)))"
  have not_n: "discordClient w \<noteq> Some ?n"
    using single_listenerD_slot [OF inv, of ?n] by auto
  have new: "sessions (listener_handoff ?n ?w2) ! ?n =
      \<lparr>conn = Authenticated, credential = Some t, client_user = Some (token_user P t),
       listeners = 1\<rparr>"
    using t not_n by (simp add: nth_listener_handoff sessions_logged_in Let_def)
  have old: "conn (sessions (listener_handoff ?n ?w2) ! old) = Destroyed"
    if "discordClient w = Some old" for old
  proof -
    from single_listenerD_slot [OF inv that] have "old < ?n" .
    with that show ?thesis
      by (simp add: nth_listener_handoff sessions_logged_in Let_def nth_append)
  qed
  have inv': "single_listener (fst (dm_bulk P v w))"
    by (rule single_listener_dm_bulk [OF inv])
  have slot': "discordClient (fst (dm_bulk P v w)) = Some ?n"
    by (simp add: w')
  have "listening_clients (fst (dm_bulk P v w)) = [?n]"
    using listening_clients_slot [OF inv' slot'] new
    by (simp add: w' listening_def)
  with slot' old single_listenerD_slot [OF inv] show ?thesis
    by (simp add: w')
qed

lemma attached:
  assumes inv: "single_listener w"
  shows "discordClient (snd (listener_attach t w)) = Some (length (sessions w))
     \<and> sessions (snd (listener_attach t w)) ! length (sessions w)
         = \<lparr>conn = Unauthenticated, credential = None, client_user = None, listeners = 1\<rparr>
     \<and> length (sessions (snd (listener_attach t w))) = Suc (length (sessions w))
     \<and> pending_logins (snd (listener_attach t w)) = pending_logins w @ [(length (sessions w), t)]
     \<and> (\<forall>old. discordClient w = Some old \<longrightarrow>
           old < length (sessions w) \<and> conn (sessions (snd (listener_attach t w)) ! old) = Destroyed)"
proof -
  let ?n = "length (sessions w)"
  note eq = snd_listener_attach [OF single_listenerD_slot [OF inv], of t]
  have not_n: "discordClient w \<noteq> Some ?n"
    using single_listenerD_slot [OF inv, of ?n] by auto
  have new: "sessions (snd (listener_attach t w)) ! ?n
      = \<lparr>conn = Unauthenticated, credential = None, client_user = None, listeners = 1\<rparr>"
    using not_n by (simp add: eq nth_listener_handoff Let_def)
  have old: "conn (sessions (snd (listener_attach t w)) ! old) = Destroyed"
    if "discordClient w = Some old" for old
  proof -
    from single_listenerD_slot [OF inv that] have "old < ?n" .
    then have h: "sessions (listener_handoff ?n (snd (new_Client w))) ! old
        = (sessions w ! old)\<lparr>conn := Destroyed\<rparr>"
      using that by (simp add: nth_listener_handoff Let_def)
    have "sessions (snd (listener_attach t w))
        = sessions (listener_handoff ?n (snd (new_Client w)))"
      by (simp add: eq)
    then show ?thesis
      by (simp add: h)
  qed
  from new old single_listenerD_slot [OF inv] show ?thesis
    by (simp add: eq)
qed

lemma promoted_by_attach:
  assumes inv: "single_listener w" and tok: "\<not> falsy t"
  shows "discordClient (step w (PostStartReplyListener t)) = Some (length (sessions w))
     \<and> listening_clients (step w (PostStartReplyListener t)) = []
     \<and> (\<forall>old. discordClient w = Some old \<longrightarrow>
           old < length (sessions w)
           \<and> conn (sessions (step w (PostStartReplyListener t)) ! old) = Destroyed)"
proof -
  note a = attached [OF inv, of "the t"]
  have inv': "single_listener (snd (listener_attach (the t) w))"
    by (rule single_listener_attach [OF inv])
  from a have slot': "discordClient (snd (listener_attach (the t) w)) = Some (length (sessions w))"
    by blast
  from a have "\<not> listening (sessions (snd (listener_attach (the t) w)) ! length (sessions w))"
    by (simp add: listening_def)
  with listening_clients_slot [OF inv' slot']
  have "listening_clients (snd (listener_attach (the t) w)) = []" by simp
  with a tok show ?thesis by simp
qed

lemma promoted_by_start:
  assumes inv: "single_listener w" and tok: "\<not> falsy t"
  shows "discordClient (fst (startReplyListener P t w)) = Some (length (sessions w))
     \<and> listening_clients (fst (startReplyListener P t w))
         = (if login_ok P (the t) then [length (sessions w)] else [])
     \<and> conn (sessions (fst (startReplyListener P t w)) ! length (sessions w))
         = (if login_ok P (the t) then Authenticated else Destroyed)
     \<and> (\<forall>old. discordClient w = Some old \<longrightarrow>
           old < length (sessions w)
           \<and> conn (sessions (fst (startReplyListener P t w)) ! old) = Destroyed)"
proof -
  let ?n = "length (sessions w)"
  let ?w3 = "snd (listener_attach (the t) w)"
  note a = attached [OF inv, of "the t"]
  have w': "fst (startReplyListener P t w) =
      snd (login P ?n (the t) (?w3\<lparr>pending_logins := filter (\<lambda>p. fst p \<noteq> ?n) (pending_logins ?w3)\<rparr>))"
    using tok by (simp add: startReplyListener_eq listener_settled_eq)
  from a have len: "?n < length (sessions ?w3)" by simp
  have new: "sessions (fst (startReplyListener P t w)) ! ?n =
      (if login_ok P (the t)
       then \<lparr>conn = Authenticated, credential = Some (the t),
              client_user = Some (token_user P (the t)), listeners = 1\<rparr>
       else \<lparr>conn = Destroyed, credential = Some (the t), client_user = None, listeners = 1\<rparr>)"
    using a len by (simp add: w' nth_login)
  have old: "conn (sessions (fst (startReplyListener P t w)) ! old) = Destroyed"
    if "discordClient w = Some old" for old
  proof -
    from a that have "old < ?n" and "conn (sessions ?w3 ! old) = Destroyed" by auto
    with len show ?thesis
      by (simp add: w' nth_login)
  qed
  have inv': "single_listener (fst (startReplyListener P t w))"
    by (rule single_listener_startReplyListener [OF inv])
  from a have slot': "discordClient (fst (startReplyListener P t w)) = Some ?n"
    by (simp add: w')
  have "listening_clients (fst (startReplyListener P t w)) = (if login_ok P (the t) then [?n] else [])"
    using listening_clients_slot [OF inv' slot'] new
    by (simp add: listening_def)
  with slot' new old single_listenerD_slot [OF inv] show ?thesis
    by simp
qed

subsection \<open>The invariant along a run\<close>

lemma ephemeral_shared [simp]:
  "discordClient (fst (dm_single P v w)) = discordClient w"
  "pending_logins (fst (dm_single P v w)) = pending_logins w"
  "discordClient (fst (guild_members P req w)) = discordClient w"
  "pending_logins (fst (guild_members P req w)) = pending_logins w"
  "discordClient (fst (guilds P r w)) = discordClient w"
  "pending_logins (fst (guilds P r w)) = pending_logins w"
  "pending_logins (fst (dm_bulk P b w)) = pending_logins w"
  by (simp_all add: dm_single_cases guild_members_cases guilds_cases dm_bulk_cases
      split: option.splits)

lemma discordClient_dm_bulk:
  "status (snd (dm_bulk P v w)) \<noteq> 200 \<Longrightarrow> discordClient (fst (dm_bulk P v w)) = discordClient w"
  by (auto simp: dm_bulk_cases split: option.splits if_splits)

lemma pending_on_slot_cong:
  "pending_logins w' = pending_logins w \<Longrightarrow> discordClient w' = discordClient w \<Longrightarrow>
     pending_on_slot w' = pending_on_slot w"
  by (simp add: pending_on_slot_def)

lemma pending_on_slot_empty: "pending_logins w = [] \<Longrightarrow> pending_on_slot w"
  by (simp add: pending_on_slot_def)

lemma reply_paths_shared [simp]:
  "sessions (fst (post_replies ok now b w)) = sessions w"
  "discordClient (fst (post_replies ok now b w)) = discordClient w"
  "pending_logins (fst (post_replies ok now b w)) = pending_logins w"
  "sessions (ws_on_message ok now d w) = sessions w"
  "discordClient (ws_on_message ok now d w) = discordClient w"
  "pending_logins (ws_on_message ok now d w) = pending_logins w"
  "sessions (emit_MessageCreate c ok now msg w) = sessions w"
  "discordClient (emit_MessageCreate c ok now msg w) = discordClient w"
  "pending_logins (emit_MessageCreate c ok now msg w) = pending_logins w"
  "sessions (ws_initial_data answer ws w) = sessions w"
  "discordClient (ws_initial_data answer ws w) = discordClient w"
  "pending_logins (ws_initial_data answer ws w) = pending_logins w"
  by (simp_all add: post_replies_eq ws_on_message_eq emit_MessageCreate_def ws_initial_data_def
      split: ws_data.splits awaited.splits)

lemma inv_step:
  assumes inv: "single_listener w" and pend: "pending_on_slot w"
    and ser: "promotes w a \<longrightarrow> pending_logins w = []"
  shows "single_listener (step w a) \<and> pending_on_slot (step w a)"
proof (cases a)
  case (PostDmSingle P v)
  have "pending_on_slot (fst (dm_single P v w)) = pending_on_slot w"
    by (rule pending_on_slot_cong) simp_all
  with PostDmSingle single_listener_dm_single [OF inv] pend show ?thesis by simp
next
  case (PostGuildMembers P req)
  have "pending_on_slot (fst (guild_members P req w)) = pending_on_slot w"
    by (rule pending_on_slot_cong) simp_all
  with PostGuildMembers single_listener_guild_members [OF inv] pend show ?thesis by simp
next
  case (PostGuilds P t)
  have "pending_on_slot (fst (guilds P t w)) = pending_on_slot w"
    by (rule pending_on_slot_cong) simp_all
  with PostGuilds single_listener_guilds [OF inv] pend show ?thesis by simp
next
  case (PostDmBulk P v)
  have "pending_on_slot (fst (dm_bulk P v w))"
  proof (cases "status (snd (dm_bulk P v w)) = 200")
    case True
    with ser PostDmBulk have "pending_logins (fst (dm_bulk P v w)) = []" by simp
    then show ?thesis by (rule pending_on_slot_empty)
  next
    case False
    have "pending_on_slot (fst (dm_bulk P v w)) = pending_on_slot w"
      by (rule pending_on_slot_cong) (simp_all add: discordClient_dm_bulk [OF False])
    with pend show ?thesis by simp
  qed
  with PostDmBulk single_listener_dm_bulk [OF inv] show ?thesis by simp
next
  case (PostStartReplyListener t)
  show ?thesis
  proof (cases "falsy t")
    case True
    with PostStartReplyListener inv pend show ?thesis by simp
  next
    case False
    with ser PostStartReplyListener have "pending_logins w = []" by simp
    with attached [OF inv, of "the t"]
    have "pending_on_slot (snd (listener_attach (the t) w))"
      by (simp add: pending_on_slot_def)
    with False PostStartReplyListener single_listener_attach [OF inv] show ?thesis by simp
  qed
next
  case (ListenerLogin P c)
  show ?thesis
  proof (cases "map_of (pending_logins w) c")
    case None
    with ListenerLogin inv pend show ?thesis by simp
  next
    case (Some t)
    then have "(c, t) \<in> set (pending_logins w)" by (rule map_of_SomeD)
    with pend have slot: "discordClient w = Some c"
      by (auto simp: pending_on_slot_def list_all_iff)
    have "pending_on_slot (fst (listener_settled P c t w))"
      using pend by (auto simp: listener_settled_eq pending_on_slot_def list_all_iff)
    with Some ListenerLogin single_listener_settled [OF inv slot] show ?thesis by simp
  qed
next
  case (PostReplies ok now b)
  have "single_listener (fst (post_replies ok now b w)) = single_listener w"
    by (rule single_listener_cong) simp_all
  moreover have "pending_on_slot (fst (post_replies ok now b w)) = pending_on_slot w"
    by (rule pending_on_slot_cong) simp_all
  ultimately show ?thesis using inv pend PostReplies by simp
next
  case (MessageCreate c ok now msg)
  have "single_listener (emit_MessageCreate c ok now msg w) = single_listener w"
    by (rule single_listener_cong) simp_all
  moreover have "pending_on_slot (emit_MessageCreate c ok now msg w) = pending_on_slot w"
    by (rule pending_on_slot_cong) simp_all
  ultimately show ?thesis using inv pend MessageCreate by simp
next
  case (WsConnection ws)
  have "single_listener (ws_on_connection ws w) = single_listener w"
    by (rule single_listener_cong) (simp_all add: ws_on_connection_def)
  moreover have "pending_on_slot (ws_on_connection ws w) = pending_on_slot w"
    by (rule pending_on_slot_cong) (simp_all add: ws_on_connection_def)
  ultimately show ?thesis using inv pend WsConnection by simp
next
  case (WsInitialData answer ws)
  have "single_listener (ws_initial_data answer ws w) = single_listener w"
    by (rule single_listener_cong) simp_all
  moreover have "pending_on_slot (ws_initial_data answer ws w) = pending_on_slot w"
    by (rule pending_on_slot_cong) simp_all
  ultimately show ?thesis using inv pend WsInitialData by simp
next
  case (WsMessage ok now d)
  have "single_listener (ws_on_message ok now d w) = single_listener w"
    by (rule single_listener_cong) simp_all
  moreover have "pending_on_slot (ws_on_message ok now d w) = pending_on_slot w"
    by (rule pending_on_slot_cong) simp_all
  ultimately show ?thesis using inv pend WsMessage by simp
next
  case (WsClose ws)
  have "single_listener (ws_on_close ws w) = single_listener w"
    by (rule single_listener_cong) (simp_all add: ws_on_close_def)
  moreover have "pending_on_slot (ws_on_close ws w) = pending_on_slot w"
    by (rule pending_on_slot_cong) (simp_all add: ws_on_close_def)
  ultimately show ?thesis using inv pend WsClose by simp
next
  case (WsError ws)
  have "single_listener (ws_on_error ws w) = single_listener w"
    by (rule single_listener_cong) (simp_all add: ws_on_error_def)
  moreover have "pending_on_slot (ws_on_error ws w) = pending_on_slot w"
    by (rule pending_on_slot_cong) (simp_all add: ws_on_error_def)
  ultimately show ?thesis using inv pend WsError by simp
next
  case (SocketState ws st)
  have "single_listener (w\<lparr>readyState := (readyState w)(ws := st)\<rparr>) = single_listener w"
    by (rule single_listener_cong) simp_all
  moreover have "pending_on_slot (w\<lparr>readyState := (readyState w)(ws := st)\<rparr>) = pending_on_slot w"
    by (rule pending_on_slot_cong) simp_all
  ultimately show ?thesis using inv pend SocketState by simp
qed

lemma inv_foldl:
  "serial w as \<Longrightarrow> single_listener w \<Longrightarrow> pending_on_slot w \<Longrightarrow>
     single_listener (foldl step w as) \<and> pending_on_slot (foldl step w as)"
proof (induction as arbitrary: w)
  case Nil
  then show ?case by simp
next
  case (Cons a as)
  from Cons.prems have "promotes w a \<longrightarrow> pending_logins w = []" and s: "serial (step w a) as"
    by simp_all
  from inv_step [OF Cons.prems(2,3) this(1)]
  have "single_listener (step w a)" and "pending_on_slot (step w a)" by simp_all
  from Cons.IH [OF s this] show ?case by simp
qed

lemma single_listener_initial: "single_listener (initial_world env)"
  by (simp add: single_listener_def initial_world_def)

lemma single_listener_run:
  assumes "serial (initial_world env) as"
  shows "single_listener (run (initial_world env) as)"
proof -
  have "pending_on_slot (initial_world env)"
    by (simp add: pending_on_slot_def initial_world_def)
  from inv_foldl [OF assms single_listener_initial this] show ?thesis
    by (simp add: run_def)
qed


text \<open>
  C2, as amended. The variable \<^verbatim>\<open>discordClient\<close> names at most one client, and in every
  state reached by a run in which no client is put in the variable while the login of a
  listener start is pending, at most one client receives replies and it is the client the
  variable names. Each promotion destroys the client the variable named before. After a bulk
  dispatch that completes, the client of the request is the one client that receives replies.
  After the synchronous part of a listener start no client receives replies yet; once its
  login has settled, the new client is the one that receives replies if the login
  succeeded, and no client receives replies if it failed.
\<close>

theorem one_listening_session:
  assumes "serial (initial_world env) as" and "w = run (initial_world env) as"
  shows "single_listener w
   \<and> length (listening_clients w) \<le> 1
   \<and> set (listening_clients w) \<subseteq> set_option (discordClient w)
   \<and> (status (snd (dm_bulk P v w)) = 200 \<longrightarrow>
        discordClient (fst (dm_bulk P v w)) = Some (length (sessions w))
        \<and> listening_clients (fst (dm_bulk P v w)) = [length (sessions w)]
        \<and> (\<forall>old. discordClient w = Some old \<longrightarrow>
              old < length (sessions w)
              \<and> conn (sessions (fst (dm_bulk P v w)) ! old) = Destroyed))
   \<and> (\<not> falsy t \<longrightarrow>
        discordClient (step w (PostStartReplyListener t)) = Some (length (sessions w))
        \<and> listening_clients (step w (PostStartReplyListener t)) = []
        \<and> (\<forall>old. discordClient w = Some old \<longrightarrow>
              old < length (sessions w)
              \<and> conn (sessions (step w (PostStartReplyListener t)) ! old) = Destroyed))
   \<and> (\<not> falsy t \<longrightarrow>
        discordClient (fst (startReplyListener P t w)) = Some (length (sessions w))
        \<and> listening_clients (fst (startReplyListener P t w))
            = (if login_ok P (the t) then [length (sessions w)] else [])
        \<and> conn (sessions (fst (startReplyListener P t w)) ! length (sessions w))
            = (if login_ok P (the t) then Authenticated else Destroyed)
        \<and> (\<forall>old. discordClient w = Some old \<longrightarrow>
              old < length (sessions w)
              \<and> conn (sessions (fst (startReplyListener P t w)) ! old) = Destroyed))"
proof -
  have inv: "single_listener w"
    unfolding assms(2) by (rule single_listener_run [OF assms(1)])
  show ?thesis
    using inv listening_clients_at_most_one [OF inv] promoted_by_bulk [OF inv, of P v]
      promoted_by_attach [OF inv, of t] promoted_by_start [OF inv, of t P]
    by blast
qed

lemma run_demo_listening:
  "run (initial_world None) [PostStartReplyListener (Some ''good''), ListenerLogin demo_platform 0]
     = demo_listening"
  by (simp add: run_def demo_listening_eq listener_attach_def listener_settled_def
      initial_world_def falsy_def Let_def new_Client_def on_MessageCreate_def update_session_def
      login_def demo_platform_def)

lemma serial_demo_listening:
  "serial (initial_world None) [PostStartReplyListener (Some ''good''), ListenerLogin demo_platform 0]"
  by (simp add: initial_world_def falsy_def)

lemma listening_demo_listening: "listening_clients demo_listening = [0]"
  by (simp add: demo_listening_eq listening_clients_def listening_def)

theorem one_listening_session_witness:
  "serial (initial_world None) [PostStartReplyListener (Some ''good''), ListenerLogin demo_platform 0]
   \<and> demo_listening
       = run (initial_world None) [PostStartReplyListener (Some ''good''), ListenerLogin demo_platform 0]
   \<and> discordClient demo_listening = Some 0 \<and> listening_clients demo_listening = [0]
   \<and> status (snd (dm_bulk demo_platform (Some ((demo_bulk [''A''] False)\<lparr>bulk_token := Some ''good''\<rparr>))
        demo_listening)) = 200
   \<and> listening_clients (fst (dm_bulk demo_platform
        (Some ((demo_bulk [''A''] False)\<lparr>bulk_token := Some ''good''\<rparr>)) demo_listening)) = [1]
   \<and> conn (sessions (fst (dm_bulk demo_platform
        (Some ((demo_bulk [''A''] False)\<lparr>bulk_token := Some ''good''\<rparr>)) demo_listening)) ! 0)
       = Destroyed
   \<and> \<not> falsy (Some ''good'')
   \<and> listening_clients (step demo_listening (PostStartReplyListener (Some ''good''))) = []
   \<and> listening_clients (fst (startReplyListener demo_platform (Some ''good'') demo_listening)) = [1]
   \<and> conn (sessions (fst (startReplyListener demo_platform (Some ''good'') demo_listening)) ! 0)
       = Destroyed"
proof -
  have ok: "status (snd (dm_bulk demo_platform
      (Some ((demo_bulk [''A''] False)\<lparr>bulk_token := Some ''good''\<rparr>)) demo_listening)) = 200"
    by (simp add: status_dm_bulk demo_listening_eq or_token_def falsy_def demo_bulk_def
        demo_platform_def)
  have tok: "\<not> falsy (Some ''good'') \<and> login_ok demo_platform (the (Some ''good''))"
    by (simp add: falsy_def demo_platform_def)
  have slot: "discordClient demo_listening = Some 0 \<and> length (sessions demo_listening) = 1"
    by (simp add: demo_listening_eq)
  from ok tok slot
    one_listening_session [OF serial_demo_listening run_demo_listening [symmetric],
      of demo_platform "Some ((demo_bulk [''A''] False)\<lparr>bulk_token := Some ''good''\<rparr>)" "Some ''good''"]
  have c: "listening_clients (fst (dm_bulk demo_platform
        (Some ((demo_bulk [''A''] False)\<lparr>bulk_token := Some ''good''\<rparr>)) demo_listening)) = [1]
   \<and> conn (sessions (fst (dm_bulk demo_platform
        (Some ((demo_bulk [''A''] False)\<lparr>bulk_token := Some ''good''\<rparr>)) demo_listening)) ! 0)
       = Destroyed
   \<and> listening_clients (step demo_listening (PostStartReplyListener (Some ''good''))) = []
   \<and> listening_clients (fst (startReplyListener demo_platform (Some ''good'') demo_listening)) = [1]
   \<and> conn (sessions (fst (startReplyListener demo_platform (Some ''good'') demo_listening)) ! 0)
       = Destroyed"
    by simp
  from tok have t: "\<not> falsy (Some ''good'')" by simp
  from slot have s: "discordClient demo_listening = Some 0" by simp
  from serial_demo_listening run_demo_listening [symmetric] s listening_demo_listening ok t c
  show ?thesis
    by blast
qed

text \<open>
  The claim as stated fails when the login of a listener start fails: the previous
  listening client is destroyed, the variable names the new client, and that client is
  destroyed too, so one client received replies before and none does after.
\<close>

theorem one_listening_session_counterexample:
  "discordClient demo_listening = Some 0 \<and> listening_clients demo_listening = [0]
   \<and> \<not> falsy (Some ''bad'')
   \<and> discordClient (fst (startReplyListener demo_platform (Some ''bad'') demo_listening)) = Some 1
   \<and> listening_clients (fst (startReplyListener demo_platform (Some ''bad'') demo_listening)) = []
   \<and> conn (sessions (fst (startReplyListener demo_platform (Some ''bad'') demo_listening)) ! 0)
       = Destroyed
   \<and> conn (sessions (fst (startReplyListener demo_platform (Some ''bad'') demo_listening)) ! 1)
       = Destroyed"
proof -
  have inv: "single_listener demo_listening"
    using single_listener_run [OF serial_demo_listening] by (simp add: run_demo_listening)
  have tok: "\<not> falsy (Some ''bad'') \<and> \<not> login_ok demo_platform (the (Some ''bad''))"
    by (simp add: falsy_def demo_platform_def)
  have slot: "discordClient demo_listening = Some 0 \<and> length (sessions demo_listening) = 1"
    by (simp add: demo_listening_eq)
  from tok have t: "\<not> falsy (Some ''bad'')" by simp
  from promoted_by_start [OF inv t, of demo_platform] tok slot show ?thesis
    by (simp add: listening_demo_listening)
qed

text \<open>
  The condition on the run is needed in this model: when a second listener start runs
  while the login of the first is pending and both logins then succeed, the client of the
  first start, which the second destroyed, is logged in again beside the client of the
  second.
\<close>

lemma overlapping_listener_starts:
  "\<not> serial (initial_world None)
       [PostStartReplyListener (Some ''good''), PostStartReplyListener (Some ''good''),
        ListenerLogin demo_platform 0, ListenerLogin demo_platform (Suc 0)]
   \<and> listening_clients (run (initial_world None)
       [PostStartReplyListener (Some ''good''), PostStartReplyListener (Some ''good''),
        ListenerLogin demo_platform 0, ListenerLogin demo_platform (Suc 0)]) = [0, Suc 0]"
  by (simp add: run_def listener_attach_def listener_settled_def destroy_def
      initial_world_def falsy_def Let_def new_Client_def on_MessageCreate_def update_session_def
      login_def demo_platform_def listening_clients_def listening_def upt_rec)

section \<open>One message handler per client\<close>

lemma one_handler_each_iff:
  "one_handler_each w \<longleftrightarrow> (\<forall>i < length (sessions w). listeners (sessions w ! i) \<le> 1)"
  by (simp add: one_handler_each_def list_all_length)

lemma one_handler_each_cong:
  "sessions w' = sessions w \<Longrightarrow> one_handler_each w' = one_handler_each w"
  by (simp add: one_handler_each_def)

lemma one_handler_each_update:
  assumes inv: "one_handler_each w"
    and le: "c < length (sessions w) \<Longrightarrow> listeners (f (sessions w ! c)) \<le> 1"
  shows "one_handler_each (update_session c f w)"
  unfolding one_handler_each_iff
proof (intro allI impI)
  fix i
  assume "i < length (sessions (update_session c f w))"
  then have i: "i < length (sessions w)" by simp
  from inv i have old: "listeners (sessions w ! i) \<le> 1"
    by (simp add: one_handler_each_iff)
  show "listeners (sessions (update_session c f w) ! i) \<le> 1"
  proof (cases "i = c")
    case True
    with i le show ?thesis by (simp add: nth_update_session)
  next
    case False
    with i old show ?thesis by (simp add: nth_update_session)
  qed
qed

lemma one_handler_each_destroy:
  assumes inv: "one_handler_each w"
  shows "one_handler_each (destroy c w)"
  unfolding destroy_def
proof (rule one_handler_each_update [OF inv])
  assume "c < length (sessions w)"
  with inv show "listeners ((sessions w ! c)\<lparr>conn := Destroyed\<rparr>) \<le> 1"
    by (simp add: one_handler_each_iff)
qed

lemma one_handler_each_login:
  assumes inv: "one_handler_each w"
  shows "one_handler_each (snd (login P c t w))"
  unfolding snd_login
proof (rule one_handler_each_update [OF inv])
  assume "c < length (sessions w)"
  with inv show "listeners (if login_ok P t
            then (sessions w ! c)\<lparr>conn := Authenticated, credential := Some t,
                   client_user := Some (token_user P t)\<rparr>
            else (sessions w ! c)\<lparr>conn := Destroyed, credential := Some t\<rparr>) \<le> 1"
    by (simp add: one_handler_each_iff)
qed

lemma one_handler_each_new_Client:
  "one_handler_each w \<Longrightarrow> one_handler_each (snd (new_Client w))"
  by (simp add: one_handler_each_def sessions_new_Client)

lemma one_handler_each_on_MessageCreate:
  assumes inv: "one_handler_each w" and zero: "listeners (sessions w ! c) = 0"
  shows "one_handler_each (on_MessageCreate c w)"
  unfolding on_MessageCreate_def
proof (rule one_handler_each_update [OF inv])
  from zero show "listeners ((sessions w ! c)\<lparr>listeners := listeners (sessions w ! c) + 1\<rparr>) \<le> 1"
    by simp
qed

lemma one_handler_each_handoff:
  assumes inv: "one_handler_each w" and c: "c < length (sessions w)"
    and zero: "listeners (sessions w ! c) = 0"
  shows "one_handler_each (listener_handoff c w)"
proof -
  define w1 where "w1 = (case discordClient w of Some old \<Rightarrow> destroy old w | None \<Rightarrow> w)"
  have 1: "one_handler_each w1"
    using inv by (simp add: w1_def one_handler_each_destroy split: option.splits)
  have z: "listeners (sessions w1 ! c) = 0"
    using c zero by (simp add: w1_def nth_destroy split: option.splits)
  have "one_handler_each (w1\<lparr>discordClient := Some c\<rparr>) = one_handler_each w1"
    by (rule one_handler_each_cong) simp
  with 1 have "one_handler_each (w1\<lparr>discordClient := Some c\<rparr>)" by simp
  then have "one_handler_each (on_MessageCreate c (w1\<lparr>discordClient := Some c\<rparr>))"
    by (rule one_handler_each_on_MessageCreate) (simp add: z)
  then show ?thesis
    by (simp add: listener_handoff_def w1_def Let_def)
qed

lemma one_handler_each_attach:
  assumes inv: "one_handler_each w"
  shows "one_handler_each (snd (listener_attach t w))"
proof -
  define w1 where "w1 = (case discordClient w of
                  Some old \<Rightarrow> (destroy old w)\<lparr>discordClient := None\<rparr>
                | None \<Rightarrow> w)"
  let ?n = "length (sessions w)"
  have len: "length (sessions w1) = ?n"
    by (simp add: w1_def split: option.splits)
  have "one_handler_each w1"
  proof (cases "discordClient w")
    case None
    with inv show ?thesis by (simp add: w1_def)
  next
    case (Some old)
    have "one_handler_each ((destroy old w)\<lparr>discordClient := None\<rparr>) = one_handler_each (destroy old w)"
      by (rule one_handler_each_cong) simp
    with Some one_handler_each_destroy [OF inv, of old] show ?thesis by (simp add: w1_def)
  qed
  then have 2: "one_handler_each (snd (new_Client w1))"
    by (rule one_handler_each_new_Client)
  have "one_handler_each ((snd (new_Client w1))\<lparr>discordClient := Some ?n\<rparr>) = one_handler_each (snd (new_Client w1))"
    by (rule one_handler_each_cong) simp
  with 2 have "one_handler_each ((snd (new_Client w1))\<lparr>discordClient := Some ?n\<rparr>)" by simp
  then have 3: "one_handler_each (on_MessageCreate ?n ((snd (new_Client w1))\<lparr>discordClient := Some ?n\<rparr>))"
    by (rule one_handler_each_on_MessageCreate) (simp add: len [symmetric])
  have "sessions (snd (listener_attach t w))
      = sessions (on_MessageCreate ?n ((snd (new_Client w1))\<lparr>discordClient := Some ?n\<rparr>))"
    using len by (simp add: listener_attach_def Let_def split_beta w1_def [symmetric])
  from one_handler_each_cong [OF this] 3 show ?thesis by simp
qed

lemma one_handler_each_settled:
  assumes inv: "one_handler_each w"
  shows "one_handler_each (fst (listener_settled P c t w))"
proof -
  let ?w = "w\<lparr>pending_logins := filter (\<lambda>p. fst p \<noteq> c) (pending_logins w)\<rparr>"
  have "one_handler_each ?w = one_handler_each w"
    by (rule one_handler_each_cong) simp
  with inv have "one_handler_each ?w" by simp
  then have "one_handler_each (snd (login P c t ?w))"
    by (rule one_handler_each_login)
  then show ?thesis by (simp add: listener_settled_eq)
qed

lemma one_handler_each_ephemeral:
  assumes inv: "one_handler_each w"
  shows "one_handler_each (destroy (length (sessions w))
           (snd (login P (length (sessions w)) t (snd (new_Client w)))))"
  by (intro one_handler_each_destroy one_handler_each_login one_handler_each_new_Client inv)

lemma one_handler_each_dm_bulk:
  assumes inv: "one_handler_each w"
  shows "one_handler_each (fst (dm_bulk P v w))"
proof -
  have "one_handler_each (listener_handoff (length (sessions w))
          (snd (login P (length (sessions w)) t (snd (new_Client w)))))" for t
  proof (rule one_handler_each_handoff)
    show "one_handler_each (snd (login P (length (sessions w)) t (snd (new_Client w))))"
      by (intro one_handler_each_login one_handler_each_new_Client inv)
    show "length (sessions w) < length (sessions (snd (login P (length (sessions w)) t (snd (new_Client w)))))"
      by simp
    show "listeners (sessions (snd (login P (length (sessions w)) t (snd (new_Client w)))) ! length (sessions w)) = 0"
      by (simp add: nth_login)
  qed
  with inv one_handler_each_ephemeral [OF inv] show ?thesis
    by (simp add: dm_bulk_cases split: option.splits)
qed

lemma one_handler_each_step:
  assumes inv: "one_handler_each w"
  shows "one_handler_each (step w a)"
proof (cases a)
  case (PostDmSingle P v)
  with inv one_handler_each_ephemeral [OF inv] show ?thesis
    by (simp add: dm_single_cases split: option.splits)
next
  case (PostGuildMembers P req)
  with inv one_handler_each_ephemeral [OF inv] show ?thesis
    by (simp add: guild_members_cases)
next
  case (PostGuilds P t)
  with inv one_handler_each_ephemeral [OF inv] show ?thesis
    by (simp add: guilds_cases)
next
  case (PostDmBulk P v)
  with one_handler_each_dm_bulk [OF inv] show ?thesis by simp
next
  case (PostStartReplyListener t)
  with inv one_handler_each_attach [OF inv] show ?thesis by simp
next
  case (ListenerLogin P c)
  with inv one_handler_each_settled [OF inv] show ?thesis
    by (simp split: option.splits)
next
  case (PostReplies ok now b)
  have "one_handler_each (fst (post_replies ok now b w)) = one_handler_each w"
    by (rule one_handler_each_cong) simp
  with inv PostReplies show ?thesis by simp
next
  case (MessageCreate c ok now msg)
  have "one_handler_each (emit_MessageCreate c ok now msg w) = one_handler_each w"
    by (rule one_handler_each_cong) simp
  with inv MessageCreate show ?thesis by simp
next
  case (WsConnection ws)
  have "one_handler_each (ws_on_connection ws w) = one_handler_each w"
    by (rule one_handler_each_cong) (simp add: ws_on_connection_def)
  with inv WsConnection show ?thesis by simp
next
  case (WsInitialData answer ws)
  have "one_handler_each (ws_initial_data answer ws w) = one_handler_each w"
    by (rule one_handler_each_cong) simp
  with inv WsInitialData show ?thesis by simp
next
  case (WsMessage ok now d)
  have "one_handler_each (ws_on_message ok now d w) = one_handler_each w"
    by (rule one_handler_each_cong) simp
  with inv WsMessage show ?thesis by simp
next
  case (WsClose ws)
  have "one_handler_each (ws_on_close ws w) = one_handler_each w"
    by (rule one_handler_each_cong) (simp add: ws_on_close_def)
  with inv WsClose show ?thesis by simp
next
  case (WsError ws)
  have "one_handler_each (ws_on_error ws w) = one_handler_each w"
    by (rule one_handler_each_cong) (simp add: ws_on_error_def)
  with inv WsError show ?thesis by simp
next
  case (SocketState ws st)
  have "one_handler_each (w\<lparr>readyState := (readyState w)(ws := st)\<rparr>) = one_handler_each w"
    by (rule one_handler_each_cong) simp
  with inv SocketState show ?thesis by simp
qed

lemma one_handler_each_foldl:
  "one_handler_each w \<Longrightarrow> one_handler_each (foldl step w as)"
  by (induction as arbitrary: w) (simp_all add: one_handler_each_step)

lemma one_handler_each_run: "one_handler_each (run (initial_world env) as)"
proof -
  have "one_handler_each (initial_world env)"
    by (simp add: one_handler_each_def initial_world_def)
  then show ?thesis
    unfolding run_def by (rule one_handler_each_foldl)
qed

section \<open>Replies: store, then broadcast\<close>

lemma received_append [simp]:
  "received ws (xs @ ys) = received ws xs @ received ws ys"
  by (induction ws xs rule: received.induct) simp_all

lemma sends_follow_insert_mono:
  "sends_follow_insert S es \<Longrightarrow> set S \<subseteq> set S' \<Longrightarrow> sends_follow_insert S' es"
proof (induction S es arbitrary: S' rule: sends_follow_insert.induct)
  case (1 stored)
  show ?case by simp
next
  case (2 stored r es)
  from "2.prems" have "sends_follow_insert (r # stored) es" and "set (r # stored) \<subseteq> set (r # S')"
    by auto
  then have "sends_follow_insert (r # S') es" by (rule "2.IH")
  then show ?case by simp
next
  case (3 stored ws r es)
  from "3.prems" have "sends_follow_insert stored es" and "r \<in> set S'" by auto
  with "3.IH" "3.prems"(2) show ?case by simp
next
  case (4 stored ws rs es)
  from "4.prems" have "sends_follow_insert stored es" by simp
  with "4.IH" "4.prems"(2) show ?case by simp
qed

lemma sends_follow_insert_append:
  "sends_follow_insert S xs \<Longrightarrow> (\<And>S'. sends_follow_insert S' ys) \<Longrightarrow>
     sends_follow_insert S (xs @ ys)"
  by (induction S xs rule: sends_follow_insert.induct) simp_all

lemma sends_follow_insert_sends:
  "r \<in> set S \<Longrightarrow> sends_follow_insert S (map (\<lambda>c. WsSend c (NewReply r)) cs)"
  by (induction cs) simp_all

lemma sends_follow_insert_block:
  "sends_follow_insert S (DbInsert r # map (\<lambda>c. WsSend c (NewReply r)) cs)"
  by (simp add: sends_follow_insert_sends)

text \<open>The effects of storing a row and broadcasting it.\<close>

lemma trace_stored_broadcast:
  "trace (broadcast (NewReply r) (snd (db_insert True r w))) =
     trace w @ DbInsert r # map (\<lambda>c. WsSend c (NewReply r))
                              (filter (\<lambda>c. readyState w c = OPEN) (clients w))"
  by (simp add: trace_broadcast)

lemma store_stored_broadcast:
  "store (broadcast (NewReply r) (snd (db_insert True r w))) = store w @ [r]"
  by simp

lemma message_handler_cases:
  "message_handler ok now msg w = w \<or>
   (ok \<and> channel_isDMBased msg \<and> \<not> user_bot (author msg) \<and>
    message_handler ok now msg w =
      broadcast (NewReply (reply_of_message now msg)) (snd (db_insert True (reply_of_message now msg) w)))"
  by (simp add: message_handler_eq)

lemma funpow_message_handler_grows:
  "\<exists>E xs. trace ((message_handler ok now msg ^^ n) w) = trace w @ E
     \<and> (\<forall>S. sends_follow_insert S E)
     \<and> store ((message_handler ok now msg ^^ n) w) = store w @ xs
     \<and> (\<not> ok \<longrightarrow> E = [] \<and> xs = [])"
proof (induction n)
  case 0
  show ?case by simp
next
  case (Suc n)
  then obtain E xs where E: "trace ((message_handler ok now msg ^^ n) w) = trace w @ E"
    "\<And>S. sends_follow_insert S E"
    "store ((message_handler ok now msg ^^ n) w) = store w @ xs"
    "\<not> ok \<longrightarrow> E = [] \<and> xs = []"
    by blast
  let ?w = "(message_handler ok now msg ^^ n) w"
  from message_handler_cases [of ok now msg ?w] show ?case
  proof
    assume "message_handler ok now msg ?w = ?w"
    with E show ?thesis by auto
  next
    assume h: "ok \<and> channel_isDMBased msg \<and> \<not> user_bot (author msg) \<and>
      message_handler ok now msg ?w =
        broadcast (NewReply (reply_of_message now msg)) (snd (db_insert True (reply_of_message now msg) ?w))"
    let ?B = "DbInsert (reply_of_message now msg) # map (\<lambda>c. WsSend c (NewReply (reply_of_message now msg)))
                (filter (\<lambda>c. readyState ?w c = OPEN) (clients ?w))"
    from h have eq: "message_handler ok now msg ?w =
        broadcast (NewReply (reply_of_message now msg)) (snd (db_insert True (reply_of_message now msg) ?w))"
      by blast
    have tr: "trace (message_handler ok now msg ?w) = trace ?w @ ?B"
      unfolding eq by (simp add: trace_broadcast)
    have st: "store (message_handler ok now msg ?w) = store ?w @ [reply_of_message now msg]"
      unfolding eq by simp
    have unroll: "(message_handler ok now msg ^^ Suc n) w = message_handler ok now msg ?w"
      by simp
    have "trace ((message_handler ok now msg ^^ Suc n) w) = trace w @ (E @ ?B)"
      unfolding unroll tr E(1) by simp
    moreover have "\<forall>S. sends_follow_insert S (E @ ?B)"
      using E(2) sends_follow_insert_block by (simp add: sends_follow_insert_append)
    moreover have "store ((message_handler ok now msg ^^ Suc n) w)
        = store w @ (xs @ [reply_of_message now msg])"
      unfolding unroll st E(3) by simp
    moreover from h have "\<not> ok \<longrightarrow> E @ ?B = [] \<and> xs @ [reply_of_message now msg] = []"
      by simp
    ultimately show ?thesis by blast
  qed
qed

lemma listener_attach_other_fields [simp]:
  "clients (snd (listener_attach t w)) = clients w"
  "readyState (snd (listener_attach t w)) = readyState w"
  "store (snd (listener_attach t w)) = store w"
  "trace (snd (listener_attach t w)) = trace w"
  by (simp_all add: listener_attach_def Let_def split_beta split: option.splits)

lemma listener_settled_other_fields [simp]:
  "clients (fst (listener_settled P c t w)) = clients w"
  "readyState (fst (listener_settled P c t w)) = readyState w"
  "store (fst (listener_settled P c t w)) = store w"
  "trace (fst (listener_settled P c t w)) = trace w"
  by (simp_all add: listener_settled_eq)

lemma dm_bulk_other_fields [simp]:
  "clients (fst (dm_bulk P v w)) = clients w"
  "readyState (fst (dm_bulk P v w)) = readyState w"
  "store (fst (dm_bulk P v w)) = store w"
  "trace (fst (dm_bulk P v w)) = trace w"
  by (simp_all add: dm_bulk_cases split: option.splits)

lemma dm_single_other_fields [simp]:
  "clients (fst (dm_single P v w)) = clients w"
  "readyState (fst (dm_single P v w)) = readyState w"
  "store (fst (dm_single P v w)) = store w"
  "trace (fst (dm_single P v w)) = trace w"
  by (simp_all add: dm_single_cases split: option.splits)

lemma guild_members_other_fields [simp]:
  "clients (fst (guild_members P req w)) = clients w"
  "readyState (fst (guild_members P req w)) = readyState w"
  "store (fst (guild_members P req w)) = store w"
  "trace (fst (guild_members P req w)) = trace w"
  by (simp_all add: guild_members_cases)

lemma guilds_other_fields [simp]:
  "clients (fst (guilds P t w)) = clients w"
  "readyState (fst (guilds P t w)) = readyState w"
  "store (fst (guilds P t w)) = store w"
  "trace (fst (guilds P t w)) = trace w"
  by (simp_all add: guilds_cases)

text \<open>Every action only adds to the effects and to the store.\<close>

lemma step_grows:
  "\<exists>E xs. trace (step w a) = trace w @ E \<and> (\<forall>S. sends_follow_insert S E)
      \<and> store (step w a) = store w @ xs"
proof (cases a)
  case (PostReplies ok now b)
  then show ?thesis
    by (cases ok) (simp_all add: post_replies_eq trace_broadcast sends_follow_insert_sends)
next
  case (MessageCreate c ok now msg)
  with funpow_message_handler_grows [where ok = ok and now = now and msg = msg
      and n = "listeners (sessions w ! c)" and w = w] show ?thesis
    by (auto simp: emit_MessageCreate_def)
next
  case (WsInitialData answer ws)
  then show ?thesis
    by (cases answer) (simp_all add: ws_initial_data_def)
next
  case (WsMessage ok now d)
  then show ?thesis
    by (cases d; cases ok) (simp_all add: ws_on_message_eq trace_broadcast sends_follow_insert_sends)
next
  case (ListenerLogin P c)
  then show ?thesis
    by (cases "map_of (pending_logins w) c") simp_all
qed (simp_all add: ws_on_connection_def ws_on_close_def ws_on_error_def)

lemma run_grows:
  "\<exists>E xs. trace (run w as) = trace w @ E \<and> (\<forall>S. sends_follow_insert S E)
      \<and> store (run w as) = store w @ xs"
proof (induction as rule: rev_induct)
  case Nil
  show ?case by (simp add: run_def)
next
  case (snoc a as)
  then obtain E xs where E: "trace (run w as) = trace w @ E" "\<And>S. sends_follow_insert S E"
    "store (run w as) = store w @ xs"
    by blast
  obtain E' xs' where E': "trace (step (run w as) a) = trace (run w as) @ E'"
    "\<And>S. sends_follow_insert S E'" "store (step (run w as) a) = store (run w as) @ xs'"
    using step_grows [of "run w as" a] by blast
  have "trace (run w (as @ [a])) = trace w @ (E @ E')"
    using E(1) E'(1) by (simp add: run_def)
  moreover have "\<forall>S. sends_follow_insert S (E @ E')"
    using E(2) E'(2) by (simp add: sends_follow_insert_append)
  moreover have "store (run w (as @ [a])) = store w @ (xs @ xs')"
    using E(3) E'(3) by (simp add: run_def)
  ultimately show ?case by blast
qed

lemma sends_follow_insert_run:
  "sends_follow_insert [] (trace (run (initial_world env) as))"
proof -
  obtain E where "trace (run (initial_world env) as) = trace (initial_world env) @ E"
    "\<And>S. sends_follow_insert S E"
    using run_grows [of "initial_world env" as] by blast
  then show ?thesis by (simp add: initial_world_def)
qed


lemma distinct_clients_step:
  "distinct (clients w) \<Longrightarrow> distinct (clients (step w a))"
  by (cases a)
    (simp_all add: post_replies_eq emit_MessageCreate_def ws_on_connection_def ws_initial_data_def
      ws_on_message_eq ws_on_close_def ws_on_error_def set_add_def set_delete_def
      distinct_removeAll split: ws_data.splits awaited.splits option.splits)

lemma distinct_clients_foldl:
  "distinct (clients w) \<Longrightarrow> distinct (clients (foldl step w as))"
  by (induction as arbitrary: w) (simp_all add: distinct_clients_step)

lemma distinct_clients_run: "distinct (clients (run (initial_world env) as))"
  by (simp add: run_def distinct_clients_foldl initial_world_def)

lemma count_list_sends:
  "distinct cs \<Longrightarrow> count_list (map (\<lambda>c. WsSend c ev) cs) (WsSend ws ev') \<le> 1"
proof (induction cs)
  case Nil
  show ?case by simp
next
  case (Cons c cs)
  then have "c \<notin> set cs" and ih: "count_list (map (\<lambda>c. WsSend c ev) cs) (WsSend ws ev') \<le> 1"
    by simp_all
  show ?case
  proof (cases "c = ws \<and> ev = ev'")
    case True
    with \<open>c \<notin> set cs\<close> have "WsSend ws ev' \<notin> set (map (\<lambda>c. WsSend c ev) cs)" by auto
    then have "count_list (map (\<lambda>c. WsSend c ev) cs) (WsSend ws ev') = 0"
      by simp
    with True show ?thesis by simp
  next
    case False
    with ih show ?thesis by auto
  qed
qed

text \<open>What one inbound reply adds, in a state where no client has two message handlers.\<close>

lemma inbound_effects:
  assumes inv: "one_handler_each w" and a: "inbound a"
  shows "(effects_of w a = [] \<and> store (step w a) = store w) \<or>
     (insert_succeeds a \<and>
      (\<exists>r. effects_of w a = DbInsert r # map (\<lambda>c. WsSend c (NewReply r))
                                     (filter (\<lambda>c. readyState w c = OPEN) (clients w))
           \<and> store (step w a) = store w @ [r]))"
proof (cases a)
  case (PostReplies ok now b)
  then show ?thesis
    by (cases ok) (simp_all add: effects_of_def post_replies_eq trace_broadcast)
next
  case (WsMessage ok now d)
  then show ?thesis
    by (cases d; cases ok) (simp_all add: effects_of_def ws_on_message_eq trace_broadcast)
next
  case (MessageCreate c ok now msg)
  show ?thesis
  proof (cases "c < length (sessions w) \<and> conn (sessions w ! c) = Authenticated")
    case False
    with MessageCreate show ?thesis
      by (auto simp: effects_of_def emit_MessageCreate_def)
  next
    case True
    then have c: "c < length (sessions w)" by simp
    from inv c have "listeners (sessions w ! c) \<le> 1"
      by (simp add: one_handler_each_iff)
    then have "listeners (sessions w ! c) = 0 \<or> listeners (sessions w ! c) = 1" by auto
    then show ?thesis
    proof
      assume "listeners (sessions w ! c) = 0"
      with MessageCreate True show ?thesis
        by (simp add: effects_of_def emit_MessageCreate_def)
    next
      assume one: "listeners (sessions w ! c) = 1"
      with MessageCreate True have s: "step w a = message_handler ok now msg w"
        by (simp add: emit_MessageCreate_def)
      from message_handler_cases [of ok now msg w] show ?thesis
      proof
        assume "message_handler ok now msg w = w"
        with s show ?thesis by (simp add: effects_of_def)
      next
        assume h: "ok \<and> channel_isDMBased msg \<and> \<not> user_bot (author msg) \<and>
          message_handler ok now msg w =
            broadcast (NewReply (reply_of_message now msg))
              (snd (db_insert True (reply_of_message now msg) w))"
        then have e: "message_handler ok now msg w = broadcast (NewReply (reply_of_message now msg))
              (snd (db_insert True (reply_of_message now msg) w))"
          by blast
        have eq: "step w a = broadcast (NewReply (reply_of_message now msg))
              (snd (db_insert True (reply_of_message now msg) w))"
          unfolding s e ..
        have "effects_of w a = DbInsert (reply_of_message now msg) #
            map (\<lambda>c. WsSend c (NewReply (reply_of_message now msg)))
              (filter (\<lambda>c. readyState w c = OPEN) (clients w))"
          unfolding effects_of_def eq by (simp add: trace_broadcast)
        moreover have "store (step w a) = store w @ [reply_of_message now msg]"
          unfolding eq by simp
        moreover from h MessageCreate have "insert_succeeds a" by simp
        ultimately show ?thesis by blast
      qed
    qed
  qed
qed (use a in simp_all)

lemma trace_step_effects: "trace (step w a) = trace w @ effects_of w a"
proof -
  obtain E where "trace (step w a) = trace w @ E"
    using step_grows [of w a] by blast
  then show ?thesis by (simp add: effects_of_def)
qed

text \<open>
  C3. In every run of the process, each \<^verbatim>\<open>newReply\<close> sent to a subscriber carries a row
  that was inserted into the store earlier in the run. For one inbound reply, through the
  message handler of a client, POST /api/replies or a \<^verbatim>\<open>reply\<close> socket message, arriving
  in any state the process can reach: the \<^verbatim>\<open>newReply\<close> event goes to a subscriber at most
  once; if it is sent at all, the first effect is the insert of its row, the insert succeeded
  and the row is in the store; and if the insert fails, nothing is sent and nothing stored.
\<close>

theorem reply_broadcast_after_insert:
  "sends_follow_insert [] (trace (run (initial_world env) as))
   \<and> (inbound a \<longrightarrow>
        trace (step (run (initial_world env) as) a)
          = trace (run (initial_world env) as) @ effects_of (run (initial_world env) as) a
        \<and> count_list (effects_of (run (initial_world env) as) a) (WsSend ws (NewReply r)) \<le> 1
        \<and> (WsSend ws (NewReply r) \<in> set (effects_of (run (initial_world env) as) a) \<longrightarrow>
             hd (effects_of (run (initial_world env) as) a) = DbInsert r
             \<and> r \<in> set (store (step (run (initial_world env) as) a))
             \<and> insert_succeeds a)
        \<and> (\<not> insert_succeeds a \<longrightarrow>
             effects_of (run (initial_world env) as) a = []
             \<and> store (step (run (initial_world env) as) a) = store (run (initial_world env) as)))"
proof (intro conjI impI)
  show "sends_follow_insert [] (trace (run (initial_world env) as))"
    by (rule sends_follow_insert_run)
next
  let ?w = "run (initial_world env) as"
  assume a: "inbound a"
  show "trace (step ?w a) = trace ?w @ effects_of ?w a"
    by (rule trace_step_effects)
  note shape = inbound_effects [OF one_handler_each_run a, of env as]
  have d: "distinct (filter (\<lambda>c. readyState ?w c = OPEN) (clients ?w))"
    using distinct_clients_run [of env as] by simp
  from shape show "count_list (effects_of ?w a) (WsSend ws (NewReply r)) \<le> 1"
  proof (elim disjE conjE exE)
    assume "effects_of ?w a = []"
    then show ?thesis by simp
  next
    fix r'
    assume "effects_of ?w a = DbInsert r' # map (\<lambda>c. WsSend c (NewReply r'))
        (filter (\<lambda>c. readyState ?w c = OPEN) (clients ?w))"
    with count_list_sends [OF d, of "NewReply r'" ws "NewReply r"] show ?thesis by simp
  qed
  {
    assume m: "WsSend ws (NewReply r) \<in> set (effects_of ?w a)"
    from shape m show "hd (effects_of ?w a) = DbInsert r"
      by auto
    from shape m show "r \<in> set (store (step ?w a))"
      by auto
    from shape m show "insert_succeeds a"
      by auto
  }
  {
    assume n: "\<not> insert_succeeds a"
    from shape n show "effects_of ?w a = []" by auto
    from shape n show "store (step ?w a) = store ?w" by auto
  }
qed


lemma demo_subscribed:
  "run (initial_world None) [SocketState 0 OPEN, WsConnection 0, WsConnection 2] =
     \<lparr>env_token = None, sessions = [], discordClient = None, pending_logins = [],
      clients = [0, 2],
      readyState = (\<lambda>_. CONNECTING)(0 := OPEN), store = [], trace = []\<rparr>"
  by (simp add: run_def initial_world_def ws_on_connection_def set_add_def)

lemma demo_effects:
  "effects_of (run (initial_world None) [SocketState 0 OPEN, WsConnection 0, WsConnection 2])
      (PostReplies True 5 demo_body)
     = [DbInsert (reply_of_body 5 demo_body), WsSend 0 (NewReply (reply_of_body 5 demo_body))]"
  unfolding demo_subscribed
  by (simp add: effects_of_def post_replies_def db_insert_def broadcast_def ws_send_def)

theorem reply_broadcast_after_insert_witness:
  "inbound (PostReplies True 5 demo_body)
   \<and> WsSend 0 (NewReply (reply_of_body 5 demo_body))
       \<in> set (effects_of (run (initial_world None) [SocketState 0 OPEN, WsConnection 0, WsConnection 2])
               (PostReplies True 5 demo_body))
   \<and> hd (effects_of (run (initial_world None) [SocketState 0 OPEN, WsConnection 0, WsConnection 2])
               (PostReplies True 5 demo_body)) = DbInsert (reply_of_body 5 demo_body)
   \<and> reply_of_body 5 demo_body
       \<in> set (store (step (run (initial_world None) [SocketState 0 OPEN, WsConnection 0, WsConnection 2])
               (PostReplies True 5 demo_body)))
   \<and> inbound (PostReplies False 5 demo_body) \<and> \<not> insert_succeeds (PostReplies False 5 demo_body)
   \<and> effects_of (run (initial_world None) [SocketState 0 OPEN, WsConnection 0, WsConnection 2])
               (PostReplies False 5 demo_body) = []"
proof -
  have i: "inbound (PostReplies True 5 demo_body) \<and> inbound (PostReplies False 5 demo_body)
      \<and> \<not> insert_succeeds (PostReplies False 5 demo_body)"
    by simp
  have m: "WsSend 0 (NewReply (reply_of_body 5 demo_body))
       \<in> set (effects_of (run (initial_world None) [SocketState 0 OPEN, WsConnection 0, WsConnection 2])
               (PostReplies True 5 demo_body))"
    by (simp add: demo_effects)
  from i m
    reply_broadcast_after_insert [of None "[SocketState 0 OPEN, WsConnection 0, WsConnection 2]"
      "PostReplies True 5 demo_body" 0 "reply_of_body 5 demo_body"]
    reply_broadcast_after_insert [of None "[SocketState 0 OPEN, WsConnection 0, WsConnection 2]"
      "PostReplies False 5 demo_body" 0 "reply_of_body 5 demo_body"]
  show ?thesis
    by blast
qed

section \<open>The message filter\<close>

text \<open>
  C7, as amended. On a message received by a logged-in client with one message handler,
  a row is handed to the store exactly when \<^verbatim>\<open>isDMBased()\<close> holds of the channel and the
  author is not flagged as a bot; the row carries the author's id, name and avatar, the
  content and id of the message and the time of receipt, and no guild; it is in the store
  when the store accepts it. Any other message leaves the process as it was. A message of
  the client's own account is among those ignored when that account is flagged as a bot;
  the handler does not look at the client's identity.
\<close>

theorem reply_filter:
  "c < length (sessions w) \<and> conn (sessions w ! c) = Authenticated
     \<and> listeners (sessions w ! c) = 1 \<longrightarrow>
     store (step w (MessageCreate c True now msg))
       = (if channel_isDMBased msg \<and> \<not> user_bot (author msg)
          then store w @
            [\<lparr>reply_userId = user_id (author msg), reply_username = username (author msg),
              reply_content = message_content msg, reply_messageId = message_id msg,
              reply_timestamp = now, reply_avatarUrl = Some (avatar_url (author msg)),
              reply_guildId = None, reply_guildName = None\<rparr>]
          else store w)
     \<and> store (step w (MessageCreate c False now msg)) = store w
     \<and> (\<not> (channel_isDMBased msg \<and> \<not> user_bot (author msg)) \<longrightarrow>
          step w (MessageCreate c ok now msg) = w)
     \<and> (client_user (sessions w ! c) = Some self \<and> user_bot self \<and> author msg = self \<longrightarrow>
          step w (MessageCreate c ok now msg) = w)"
  by (simp add: message_handler_eq emit_MessageCreate_def reply_of_message_def)

theorem reply_filter_witness:
  "0 < length (sessions demo_listening) \<and> conn (sessions demo_listening ! 0) = Authenticated
   \<and> listeners (sessions demo_listening ! 0) = 1
   \<and> store (step demo_listening (MessageCreate 0 True 7 (demo_message alice True)))
       = [\<lparr>reply_userId = ''A'', reply_username = ''alice'', reply_content = ''pong'',
           reply_messageId = ''m2'', reply_timestamp = 7, reply_avatarUrl = Some ''a.png'',
           reply_guildId = None, reply_guildName = None\<rparr>]
   \<and> \<not> (channel_isDMBased (demo_message alice False) \<and> \<not> user_bot (author (demo_message alice False)))
   \<and> step demo_listening (MessageCreate 0 True 7 (demo_message alice False)) = demo_listening
   \<and> client_user (sessions demo_listening ! 0) = Some bot_account \<and> user_bot bot_account
   \<and> author (demo_message bot_account True) = bot_account
   \<and> step demo_listening (MessageCreate 0 True 7 (demo_message bot_account True)) = demo_listening"
proof -
  have l: "0 < length (sessions demo_listening) \<and> conn (sessions demo_listening ! 0) = Authenticated
      \<and> listeners (sessions demo_listening ! 0) = 1
      \<and> client_user (sessions demo_listening ! 0) = Some bot_account"
    by (simp add: demo_listening_eq)
  have s: "store demo_listening = []"
    by (simp add: demo_listening_eq)
  have a: "channel_isDMBased (demo_message alice True) \<and> \<not> user_bot (author (demo_message alice True))
      \<and> \<not> (channel_isDMBased (demo_message alice False) \<and> \<not> user_bot (author (demo_message alice False)))"
    by (simp add: demo_message_def alice_def)
  have b: "user_bot bot_account \<and> author (demo_message bot_account True) = bot_account"
    by (simp add: demo_message_def bot_account_def)
  from l a reply_filter [of 0 demo_listening 7 "demo_message alice True" True bot_account]
  have 1: "store (step demo_listening (MessageCreate 0 True 7 (demo_message alice True)))
      = store demo_listening @
          [\<lparr>reply_userId = user_id (author (demo_message alice True)),
            reply_username = username (author (demo_message alice True)),
            reply_content = message_content (demo_message alice True),
            reply_messageId = message_id (demo_message alice True),
            reply_timestamp = 7,
            reply_avatarUrl = Some (avatar_url (author (demo_message alice True))),
            reply_guildId = None, reply_guildName = None\<rparr>]"
    by simp
  from l a reply_filter [of 0 demo_listening 7 "demo_message alice False" True bot_account]
  have 2: "step demo_listening (MessageCreate 0 True 7 (demo_message alice False)) = demo_listening"
    by blast
  from l b reply_filter [of 0 demo_listening 7 "demo_message bot_account True" True bot_account]
  have 3: "step demo_listening (MessageCreate 0 True 7 (demo_message bot_account True)) = demo_listening"
    by blast
  from 1 have 4: "store (step demo_listening (MessageCreate 0 True 7 (demo_message alice True)))
       = [\<lparr>reply_userId = ''A'', reply_username = ''alice'', reply_content = ''pong'',
           reply_messageId = ''m2'', reply_timestamp = 7, reply_avatarUrl = Some ''a.png'',
           reply_guildId = None, reply_guildName = None\<rparr>]"
    by (simp add: s demo_message_def alice_def)
  from l a b 2 3 4 show ?thesis
    by blast
qed

text \<open>
  The claim as stated fails for a direct message of another bot account: it comes through
  a direct channel and its author is not the account the listening client is logged in as,
  yet nothing is stored.
\<close>

theorem reply_filter_counterexample:
  "conn (sessions demo_listening ! 0) = Authenticated \<and> listeners (sessions demo_listening ! 0) = 1
   \<and> client_user (sessions demo_listening ! 0) = Some bot_account
   \<and> channel_isDMBased (demo_message robot True)
   \<and> user_id (author (demo_message robot True)) \<noteq> user_id bot_account
   \<and> store (step demo_listening (MessageCreate 0 True 7 (demo_message robot True)))
       = store demo_listening"
  by (simp add: demo_listening_eq demo_message_def robot_def bot_account_def
      emit_MessageCreate_def message_handler_def)

section \<open>The history sent to a new subscriber\<close>









section \<open>A guild whose members cannot be fetched\<close>

lemma snd_guild_members_all:
  assumes "\<not> falsy (or_token (env_token w) (members_token req))"
    and "login_ok P (the (or_token (env_token w) (members_token req)))"
    and "falsy (guildId req)"
  shows "snd (guild_members P req w) = Response 200 (Some (filter_out_bots (all_guilds_members P)))"
  using assms
  by (simp add: guild_members_def Let_def split_beta)

text \<open>
  C9. In select-all resolution and in the all-guilds member preview, a guild whose member
  list cannot be fetched is skipped and the guilds after it are still enumerated: the result
  is the one the remaining guilds alone give. The failure does not fail the request: once
  the login has succeeded the bulk request ends with 200 and the tally of the targets so
  resolved, and the preview ends with 200 and the members so collected.
\<close>

theorem group_failure_skipped:
  "resolve_targets P ids True
     = resolve_targets (P\<lparr>guilds_cache := filter members_fetch_ok (guilds_cache P)\<rparr>) ids True
   \<and> all_guilds_members P
     = all_guilds_members (P\<lparr>guilds_cache := filter members_fetch_ok (guilds_cache P)\<rparr>)
   \<and> (\<not> falsy (or_token (env_token w) (bulk_token breq))
        \<and> login_ok P (the (or_token (env_token w) (bulk_token breq))) \<longrightarrow>
        snd (dm_bulk P (Some breq) w)
          = Response 200 (Some (fst (send_loop P (bulk_message breq) (delay breq)
              (resolve_targets P (userIds breq) (selectAll breq))))))
   \<and> (\<not> falsy (or_token (env_token w) (members_token mreq))
        \<and> login_ok P (the (or_token (env_token w) (members_token mreq)))
        \<and> falsy (guildId mreq) \<longrightarrow>
        snd (guild_members P mreq w)
          = Response 200 (Some (filter_out_bots (all_guilds_members P))))"
proof (intro conjI impI)
  show "resolve_targets P ids True
     = resolve_targets (P\<lparr>guilds_cache := filter members_fetch_ok (guilds_cache P)\<rparr>) ids True"
    using foldl_push_guild_filter [of ids "guilds_cache P"]
    by (simp add: resolve_targets_def)
  show "all_guilds_members P
     = all_guilds_members (P\<lparr>guilds_cache := filter members_fetch_ok (guilds_cache P)\<rparr>)"
    using foldl_append_guild_members_filter [of "[]" "guilds_cache P"]
    by (simp add: all_guilds_members_def)
next
  assume "\<not> falsy (or_token (env_token w) (bulk_token breq))
        \<and> login_ok P (the (or_token (env_token w) (bulk_token breq)))"
  then show "snd (dm_bulk P (Some breq) w)
          = Response 200 (Some (fst (send_loop P (bulk_message breq) (delay breq)
              (resolve_targets P (userIds breq) (selectAll breq)))))"
    by (simp add: dm_bulk_cases)
next
  assume "\<not> falsy (or_token (env_token w) (members_token mreq))
        \<and> login_ok P (the (or_token (env_token w) (members_token mreq)))
        \<and> falsy (guildId mreq)"
  then show "snd (guild_members P mreq w)
          = Response 200 (Some (filter_out_bots (all_guilds_members P)))"
    by (simp add: snd_guild_members_all)
qed

lemma demo_all_guilds_members:
  "map pm_id (all_guilds_members demo_platform) = [''A'', ''R'', ''C'']"
  by (simp add: all_guilds_members_def remove_duplicate_members_def append_guild_members_def
      to_preview_def enumerate_eq_zip demo_defs)

theorem group_failure_skipped_witness:
  "\<not> members_fetch_ok guild_down \<and> guild_down \<in> set (guilds_cache demo_platform)
   \<and> resolve_targets demo_platform [''B''] True = [''B'', ''A'', ''C'']
   \<and> \<not> falsy (or_token (env_token (initial_world (Some ''good''))) (bulk_token (demo_bulk [''B''] True)))
   \<and> login_ok demo_platform
        (the (or_token (env_token (initial_world (Some ''good''))) (bulk_token (demo_bulk [''B''] True))))
   \<and> snd (dm_bulk demo_platform (Some (demo_bulk [''B''] True)) (initial_world (Some ''good'')))
       = Response 200 (Some \<lparr>success = 2, failed = 1, failedIds = [''B'']\<rparr>)
   \<and> falsy (guildId demo_members)
   \<and> map_option (map pm_id)
        (payload (snd (guild_members demo_platform demo_members (initial_world (Some ''good'')))))
       = Some [''A'', ''R'', ''C'']
   \<and> status (snd (guild_members demo_platform demo_members (initial_world (Some ''good'')))) = 200"
proof -
  have g: "\<not> members_fetch_ok guild_down \<and> guild_down \<in> set (guilds_cache demo_platform)"
    by (simp add: demo_defs)
  have b: "\<not> falsy (or_token (env_token (initial_world (Some ''good''))) (bulk_token (demo_bulk [''B''] True)))
     \<and> login_ok demo_platform
        (the (or_token (env_token (initial_world (Some ''good''))) (bulk_token (demo_bulk [''B''] True))))"
    by (simp add: or_token_def falsy_def initial_world_def demo_platform_def)
  have m: "\<not> falsy (or_token (env_token (initial_world (Some ''good''))) (members_token demo_members))
     \<and> login_ok demo_platform
        (the (or_token (env_token (initial_world (Some ''good''))) (members_token demo_members)))
     \<and> falsy (guildId demo_members)"
    by (simp add: or_token_def falsy_def initial_world_def demo_platform_def demo_members_def)
  have l: "fst (send_loop demo_platform ''hi'' (Some 100) [''B'', ''A'', ''C''])
      = \<lparr>success = 2, failed = 1, failedIds = [''B'']\<rparr>"
    by (simp add: send_loop_def send_body_def results_init_def record_failure_def demo_defs)
  have f: "filter_out_bots (all_guilds_members demo_platform) = all_guilds_members demo_platform"
    by (simp add: filter_out_bots_def preview_bot_def)
  note t = group_failure_skipped [of demo_platform "[''B'']" "initial_world (Some ''good'')"
      "demo_bulk [''B''] True" demo_members]
  from t b have r: "snd (dm_bulk demo_platform (Some (demo_bulk [''B''] True)) (initial_world (Some ''good'')))
      = Response 200 (Some (fst (send_loop demo_platform (bulk_message (demo_bulk [''B''] True))
          (delay (demo_bulk [''B''] True))
          (resolve_targets demo_platform (userIds (demo_bulk [''B''] True))
             (selectAll (demo_bulk [''B''] True))))))"
    by blast
  from t m have p: "snd (guild_members demo_platform demo_members (initial_world (Some ''good'')))
      = Response 200 (Some (filter_out_bots (all_guilds_members demo_platform)))"
    by blast
  from g b m show ?thesis
    unfolding r p
    by (simp add: demo_resolve l f demo_all_guilds_members demo_bulk_def)
qed

section \<open>The member preview\<close>

lemma findIndex_found:
  "\<exists>x \<in> set xs. p x \<Longrightarrow>
     0 \<le> findIndex p xs \<and> nat (findIndex p xs) < length xs \<and> p (xs ! nat (findIndex p xs))
     \<and> (\<forall>j < nat (findIndex p xs). \<not> p (xs ! j))"
proof (induction xs)
  case Nil
  then show ?case by simp
next
  case (Cons x xs)
  show ?case
  proof (cases "p x")
    case True
    then show ?thesis by simp
  next
    case False
    with Cons.prems have "\<exists>x \<in> set xs. p x" by simp
    from Cons.IH [OF this] have ih: "0 \<le> findIndex p xs" "nat (findIndex p xs) < length xs"
      "p (xs ! nat (findIndex p xs))" "\<forall>j < nat (findIndex p xs). \<not> p (xs ! j)"
      by simp_all
    from ih(1) have n: "nat (findIndex p xs + 1) = Suc (nat (findIndex p xs))" by simp
    from False ih(1) have f: "findIndex p (x # xs) = findIndex p xs + 1"
      by (simp add: Let_def)
    have "\<forall>j < Suc (nat (findIndex p xs)). \<not> p ((x # xs) ! j)"
    proof (intro allI impI)
      fix j
      assume "j < Suc (nat (findIndex p xs))"
      with False ih(4) show "\<not> p ((x # xs) ! j)" by (cases j) simp_all
    qed
    with ih show ?thesis
      unfolding f n by simp
  qed
qed

lemma set_remove_duplicate_members:
  "set (remove_duplicate_members self) =
     {self ! i | i. i < length self \<and> int i = findIndex (\<lambda>m. pm_id m = pm_id (self ! i)) self}"
  by (auto simp: remove_duplicate_members_def in_set_enumerate_eq image_iff)

lemma distinct_remove_duplicate_members:
  "distinct (map pm_id (remove_duplicate_members self))"
proof -
  let ?keep = "filter (\<lambda>(index, member). int index = findIndex (\<lambda>m. pm_id m = pm_id member) self)
                 (enumerate 0 self)"
  have d: "distinct ?keep"
    by (simp add: distinct_enumerate)
  have "inj_on (\<lambda>e. pm_id (snd e)) (set ?keep)"
  proof (rule inj_onI)
    fix e e'
    assume e: "e \<in> set ?keep" and e': "e' \<in> set ?keep" and same: "pm_id (snd e) = pm_id (snd e')"
    from e have 1: "int (fst e) = findIndex (\<lambda>m. pm_id m = pm_id (snd e)) self"
      and 2: "snd e = self ! fst e"
      by (auto simp: in_set_enumerate_eq)
    from e' have 3: "int (fst e') = findIndex (\<lambda>m. pm_id m = pm_id (snd e')) self"
      and 4: "snd e' = self ! fst e'"
      by (auto simp: in_set_enumerate_eq)
    from 1 3 same have "fst e = fst e'" by simp
    with 2 4 show "e = e'" by (simp add: prod_eq_iff)
  qed
  with d have "distinct (map (\<lambda>e. pm_id (snd e)) ?keep)"
    by (simp add: distinct_map)
  then show ?thesis
    by (simp add: remove_duplicate_members_def comp_def)
qed

text \<open>
  X1. The all-guilds member preview lists an id once: of the members with the same id it
  keeps the first in enumeration order, with the guild it was found in, and every id of the
  list it is given is still there.
\<close>

theorem preview_first_occurrence:
  "distinct (map pm_id (remove_duplicate_members self))
   \<and> pm_id ` set (remove_duplicate_members self) = pm_id ` set self
   \<and> (\<forall>m \<in> set (remove_duplicate_members self).
         \<exists>i < length self. self ! i = m \<and> (\<forall>j < i. pm_id (self ! j) \<noteq> pm_id m))"
proof (intro conjI ballI)
  show "distinct (map pm_id (remove_duplicate_members self))"
    by (rule distinct_remove_duplicate_members)
next
  show "pm_id ` set (remove_duplicate_members self) = pm_id ` set self"
  proof (intro equalityI subsetI)
    fix x
    assume "x \<in> pm_id ` set (remove_duplicate_members self)"
    then show "x \<in> pm_id ` set self"
      by (auto simp: set_remove_duplicate_members)
  next
    fix x
    assume "x \<in> pm_id ` set self"
    then have ex: "\<exists>m \<in> set self. pm_id m = x" by auto
    let ?k = "nat (findIndex (\<lambda>m. pm_id m = x) self)"
    from findIndex_found [OF ex] have k: "0 \<le> findIndex (\<lambda>m. pm_id m = x) self"
      "?k < length self" "pm_id (self ! ?k) = x"
      by simp_all
    from k(1,3) have "int ?k = findIndex (\<lambda>m. pm_id m = pm_id (self ! ?k)) self" by simp
    with k(2) have "self ! ?k \<in> set (remove_duplicate_members self)"
      unfolding set_remove_duplicate_members by blast
    with k(3) show "x \<in> pm_id ` set (remove_duplicate_members self)" by force
  qed
next
  fix m
  assume "m \<in> set (remove_duplicate_members self)"
  then obtain i where i: "i < length self" "m = self ! i"
    "int i = findIndex (\<lambda>m'. pm_id m' = pm_id (self ! i)) self"
    unfolding set_remove_duplicate_members by blast
  from i(1) have "\<exists>y \<in> set self. pm_id y = pm_id (self ! i)" by auto
  from findIndex_found [OF this]
  have "\<forall>j < nat (findIndex (\<lambda>m'. pm_id m' = pm_id (self ! i)) self).
          pm_id (self ! j) \<noteq> pm_id (self ! i)"
    by blast
  moreover have "nat (findIndex (\<lambda>m'. pm_id m' = pm_id (self ! i)) self) = i"
    unfolding i(3) [symmetric] by simp
  ultimately have "\<forall>j < i. pm_id (self ! j) \<noteq> pm_id (self ! i)"
    by simp
  with i(1,2) show "\<exists>i < length self. self ! i = m \<and> (\<forall>j < i. pm_id (self ! j) \<noteq> pm_id m)"
    by blast
qed

theorem preview_first_occurrence_witness:
  "map (\<lambda>m. (pm_id m, pm_guildId m)) (all_guilds_members demo_platform)
     = [(''A'', ''G1''), (''R'', ''G1''), (''C'', ''G3'')]
   \<and> distinct (map pm_id (all_guilds_members demo_platform))"
proof -
  have "map (\<lambda>m. (pm_id m, pm_guildId m)) (all_guilds_members demo_platform)
     = [(''A'', ''G1''), (''R'', ''G1''), (''C'', ''G3'')]"
    by (simp add: all_guilds_members_def remove_duplicate_members_def append_guild_members_def
        to_preview_def enumerate_eq_zip demo_defs)
  with preview_first_occurrence [of "foldl append_guild_members [] (guilds_cache demo_platform)"]
  show ?thesis
    by (simp add: all_guilds_members_def)
qed

text \<open>
  X2. The member preview's bot filter keeps every member: it reads \<^verbatim>\<open>member.bot\<close> from the
  mapped objects, which have no such property. So the preview over all guilds returns the
  deduplicated members of the guilds that could be fetched, bots included.
\<close>

theorem preview_keeps_bots:
  "filter_out_bots members = members
   \<and> (\<not> falsy (or_token (env_token w) (members_token mreq))
        \<and> login_ok P (the (or_token (env_token w) (members_token mreq)))
        \<and> falsy (guildId mreq) \<longrightarrow>
        snd (guild_members P mreq w) = Response 200 (Some (all_guilds_members P)))"
  by (simp add: snd_guild_members_all filter_out_bots_def preview_bot_def)

theorem preview_keeps_bots_witness:
  "\<not> falsy (or_token (env_token (initial_world (Some ''good''))) (members_token demo_members))
   \<and> login_ok demo_platform
        (the (or_token (env_token (initial_world (Some ''good''))) (members_token demo_members)))
   \<and> falsy (guildId demo_members)
   \<and> user_bot robot
   \<and> map_option (map pm_id)
        (payload (snd (guild_members demo_platform demo_members (initial_world (Some ''good'')))))
       = Some [''A'', ''R'', ''C'']"
proof -
  have m: "\<not> falsy (or_token (env_token (initial_world (Some ''good''))) (members_token demo_members))
     \<and> login_ok demo_platform
        (the (or_token (env_token (initial_world (Some ''good''))) (members_token demo_members)))
     \<and> falsy (guildId demo_members)"
    by (simp add: or_token_def falsy_def initial_world_def demo_platform_def demo_members_def)
  from m preview_keeps_bots [of "[]" "initial_world (Some ''good'')" demo_members demo_platform]
  have p: "snd (guild_members demo_platform demo_members (initial_world (Some ''good'')))
      = Response 200 (Some (all_guilds_members demo_platform))"
    by blast
  from m show ?thesis
    unfolding p by (simp add: demo_all_guilds_members robot_def)
qed

end
